theory Spec2Isabelle
  imports Complex_Main "HOL-Library.Char_ord" "HOL-Library.List_Lexorder"
begin

section \<open>A shallow embedding of the jason JSON library (json.h, json.cc)\<close>

text \<open>
  The theory follows the layout of \<^verbatim>\<open>json.cc\<close>: tokens, the \<^verbatim>\<open>Lexer\<close>, the
  \<^verbatim>\<open>Parser\<close>, the value type and \<^verbatim>\<open>serialise\<close>.

  \<^item> A \<^verbatim>\<open>char\<close> is a byte (\<^typ>\<open>char\<close>); a \<^verbatim>\<open>std::string\<close> or
    \<^verbatim>\<open>std::string_view\<close> is a \<^typ>\<open>string\<close>.
  \<^item> The pointers \<^verbatim>\<open>start\<close> and \<^verbatim>\<open>current\<close> of the Lexer are offsets into
    \<^verbatim>\<open>source\<close>.
  \<^item> \<^verbatim>\<open>size_t\<close> counters (line, column) are \<^typ>\<open>nat\<close>: they are bounded by the
    length of the input plus one, far below \<open>2 ^ 64\<close>.
  \<^item> A thrown \<^verbatim>\<open>ParsingError\<close> is the \<open>Inl\<close> branch of a sum type.
  \<^item> \<^verbatim>\<open>std::isdigit\<close> and \<^verbatim>\<open>std::isalpha\<close> are taken in the "C" locale.
\<close>

subsection \<open>Characters\<close>

abbreviation (input) NUL :: char where "NUL \<equiv> CHR 0x00"
abbreviation (input) BSP :: char where "BSP \<equiv> CHR 0x08"
abbreviation (input) TAB :: char where "TAB \<equiv> CHR 0x09"
abbreviation (input) LF :: char where "LF \<equiv> CHR 0x0A"
abbreviation (input) FF :: char where "FF \<equiv> CHR 0x0C"
abbreviation (input) CR :: char where "CR \<equiv> CHR 0x0D"
abbreviation (input) DQ :: char where "DQ \<equiv> CHR 0x22"
abbreviation (input) BS :: char where "BS \<equiv> CHR 0x5C"

definition isdigit :: "char \<Rightarrow> bool" where
  "isdigit c = (CHR ''0'' \<le> c \<and> c \<le> CHR ''9'')"

definition isalpha :: "char \<Rightarrow> bool" where
  "isalpha c = ((CHR ''a'' \<le> c \<and> c \<le> CHR ''z'') \<or> (CHR ''A'' \<le> c \<and> c \<le> CHR ''Z''))"

subsection \<open>Tokens (json.cc, lines 9-31)\<close>

datatype TokenType =
    LeftBrace | RightBrace | LeftBracket | RightBracket | Comma | Colon
  | String | Number | TrueTok | FalseTok | NullTok | EndOfFile | Unknown

record Token =
  type :: TokenType
  lexeme :: string
  line :: nat
  col :: nat

subsection \<open>The Lexer (json.cc, lines 33-56 and 195-370)\<close>

record Lexer =
  source :: string
  start :: nat
  current :: nat
  lineNum :: nat
  colNum :: nat
  lineStart :: nat
  colStart :: nat

text \<open>The constructor \<^verbatim>\<open>Lexer(source)\<close> with the default member initialisers.\<close>

definition Lexer_init :: "string \<Rightarrow> Lexer" where
  "Lexer_init src =
     \<lparr>source = src, start = 0, current = 0, lineNum = 1, colNum = 1, lineStart = 1, colStart = 1\<rparr>"

definition isAtEnd :: "Lexer \<Rightarrow> bool" where
  "isAtEnd l = (length (source l) \<le> current l)"

text \<open>\<^verbatim>\<open>Lexer::advance\<close>: the character consumed and the new state.\<close>

definition Lexer_advance :: "Lexer \<Rightarrow> char \<times> Lexer" where
  "Lexer_advance l =
     (if isAtEnd l then (NUL, l)
      else (source l ! current l, l\<lparr>current := current l + 1, colNum := colNum l + 1\<rparr>))"

definition adv :: "Lexer \<Rightarrow> Lexer" where
  "adv l = snd (Lexer_advance l)"

definition peek :: "Lexer \<Rightarrow> char" where
  "peek l = (if isAtEnd l then NUL else source l ! current l)"

definition peekNext :: "Lexer \<Rightarrow> char" where
  "peekNext l = (if length (source l) \<le> current l + 1 then NUL else source l ! (current l + 1))"

text \<open>The statements \<^verbatim>\<open>lineNum++; colNum = 1;\<close>.\<close>

definition newline :: "Lexer \<Rightarrow> Lexer" where
  "newline l = l\<lparr>lineNum := lineNum l + 1, colNum := 1\<rparr>"

text \<open>The loop of line 237: \<^verbatim>\<open>while (peek() != '\n' && !isAtEnd()) advance();\<close>\<close>

function skipLineComment :: "Lexer \<Rightarrow> Lexer" where
  "skipLineComment l = (if peek l \<noteq> LF \<and> \<not> isAtEnd l then skipLineComment (adv l) else l)"
  by pat_completeness auto
termination
  by (relation "measure (\<lambda>l. length (source l) - current l)")
     (auto simp: adv_def Lexer_advance_def isAtEnd_def)

declare skipLineComment.simps [simp del]

text \<open>The loop of lines 243-249, inside a block comment.\<close>

function skipBlockComment :: "Lexer \<Rightarrow> Lexer" where
  "skipBlockComment l =
     (if (peek l \<noteq> CHR ''*'' \<or> peekNext l \<noteq> CHR ''/'') \<and> \<not> isAtEnd l
      then skipBlockComment (adv (if peek l = LF then newline l else l))
      else l)"
  by pat_completeness auto
termination
  by (relation "measure (\<lambda>l. length (source l) - current l)")
     (auto simp: adv_def Lexer_advance_def isAtEnd_def newline_def peek_def)

declare skipBlockComment.simps [simp del]

text \<open>Lines 240-255: a block comment, from its \<^verbatim>\<open>/*\<close> to its \<^verbatim>\<open>*/\<close> or to the end of input.\<close>

definition blockComment :: "Lexer \<Rightarrow> Lexer" where
  "blockComment l =
     (let l1 = skipBlockComment (adv (adv l));
          l2 = (if \<not> isAtEnd l1 then adv l1 else l1)
      in if \<not> isAtEnd l2 then adv l2 else l2)"

lemma source_adv [simp]: "source (adv l) = source l"
  by (simp add: adv_def Lexer_advance_def)

lemma source_newline [simp]: "source (newline l) = source l"
  by (simp add: newline_def)

lemma current_newline [simp]: "current (newline l) = current l"
  by (simp add: newline_def)

lemma current_adv: "current (adv l) = (if isAtEnd l then current l else current l + 1)"
  by (simp add: adv_def Lexer_advance_def)

lemma current_adv_le: "current l \<le> current (adv l)"
  by (simp add: current_adv)

lemma source_skipLineComment [simp]: "source (skipLineComment l) = source l"
  by (induction l rule: skipLineComment.induct) (subst skipLineComment.simps, simp)

lemma current_skipLineComment: "current l \<le> current (skipLineComment l)"
proof (induction l rule: skipLineComment.induct)
  case (1 l)
  show ?case
  proof (cases "peek l \<noteq> LF \<and> \<not> isAtEnd l")
    case True
    then have "current l \<le> current (skipLineComment (adv l))"
      using "1.IH" current_adv_le [of l] by (meson le_trans)
    with True show ?thesis by (subst skipLineComment.simps) simp
  next
    case False
    then show ?thesis by (subst skipLineComment.simps) auto
  qed
qed

lemma source_skipBlockComment [simp]: "source (skipBlockComment l) = source l"
  by (induction l rule: skipBlockComment.induct) (subst skipBlockComment.simps, simp)

lemma current_skipBlockComment: "current l \<le> current (skipBlockComment l)"
proof (induction l rule: skipBlockComment.induct)
  case (1 l)
  show ?case
  proof (cases "(peek l \<noteq> CHR ''*'' \<or> peekNext l \<noteq> CHR ''/'') \<and> \<not> isAtEnd l")
    case True
    let ?l = "adv (if peek l = LF then newline l else l)"
    have "current l \<le> current ?l" by (simp add: current_adv)
    moreover have "current ?l \<le> current (skipBlockComment ?l)" using "1.IH" True by simp
    ultimately show ?thesis using True by (subst skipBlockComment.simps) simp
  next
    case False
    then show ?thesis by (subst skipBlockComment.simps) auto
  qed
qed

lemma source_blockComment [simp]: "source (blockComment l) = source l"
  by (simp add: blockComment_def Let_def)

lemma current_blockComment: "current (adv (adv l)) \<le> current (blockComment l)"
proof -
  have "current (adv (adv l)) \<le> current (skipBlockComment (adv (adv l)))"
    by (rule current_skipBlockComment)
  then show ?thesis
    by (auto simp: blockComment_def Let_def current_adv)
qed

text \<open>\<^verbatim>\<open>Lexer::skipWhitespaceAndComments\<close> (lines 222-263).\<close>

function skipWhitespaceAndComments :: "Lexer \<Rightarrow> Lexer" where
  "skipWhitespaceAndComments l =
     (let c = peek l in
      if c = CHR '' '' \<or> c = CR \<or> c = TAB then skipWhitespaceAndComments (adv l)
      else if c = LF then skipWhitespaceAndComments (newline (adv l))
      else if c = CHR ''/'' then
        (if peekNext l = CHR ''/'' then skipWhitespaceAndComments (skipLineComment l)
         else if peekNext l = CHR ''*'' then skipWhitespaceAndComments (blockComment l)
         else l)
      else l)"
  by pat_completeness auto

lemma peek_not_NUL: "peek l \<noteq> NUL \<Longrightarrow> \<not> isAtEnd l"
  by (auto simp: peek_def)

lemma skipLineComment_progress: "peek l = CHR ''/'' \<Longrightarrow> current l < current (skipLineComment l)"
proof -
  assume p: "peek l = CHR ''/''"
  then have ne: "\<not> isAtEnd l" by (auto simp: peek_def)
  have "current (adv l) \<le> current (skipLineComment (adv l))" by (rule current_skipLineComment)
  moreover have "skipLineComment l = skipLineComment (adv l)"
    using p ne by (subst skipLineComment.simps) simp
  ultimately show ?thesis using ne by (simp add: current_adv)
qed

lemma blockComment_progress: "peek l = CHR ''/'' \<Longrightarrow> current l < current (blockComment l)"
proof -
  assume p: "peek l = CHR ''/''"
  then have ne: "\<not> isAtEnd l" by (auto simp: peek_def)
  then have "current l < current (adv (adv l))"
    using current_adv_le [of "adv l"] by (simp add: current_adv [of l])
  then show ?thesis using current_blockComment [of l] by simp
qed

termination skipWhitespaceAndComments
proof (relation "measure (\<lambda>l. length (source l) - current l)")
  show "wf (measure (\<lambda>l. length (source l) - current l))" by simp
next
  fix l c
  assume "c = peek l" "c = CHR '' '' \<or> c = CR \<or> c = TAB"
  then have "\<not> isAtEnd l" by (auto simp: peek_def)
  then show "(adv l, l) \<in> measure (\<lambda>l. length (source l) - current l)"
    by (simp add: current_adv isAtEnd_def)
next
  fix l c
  assume "c = peek l" "c = LF"
  then have "\<not> isAtEnd l" by (auto simp: peek_def)
  then show "(newline (adv l), l) \<in> measure (\<lambda>l. length (source l) - current l)"
    by (simp add: current_adv isAtEnd_def)
next
  fix l c
  assume "c = peek l" "c = CHR ''/''"
  then have p: "peek l = CHR ''/''" by simp
  then have "\<not> isAtEnd l" by (auto simp: peek_def)
  then show "(skipLineComment l, l) \<in> measure (\<lambda>l. length (source l) - current l)"
    using skipLineComment_progress [OF p] by (simp add: isAtEnd_def)
next
  fix l c
  assume "c = peek l" "c = CHR ''/''"
  then have p: "peek l = CHR ''/''" by simp
  then have "\<not> isAtEnd l" by (auto simp: peek_def)
  then show "(blockComment l, l) \<in> measure (\<lambda>l. length (source l) - current l)"
    using blockComment_progress [OF p] by (simp add: isAtEnd_def)
qed

declare skipWhitespaceAndComments.simps [simp del]

text \<open>\<^verbatim>\<open>Lexer::makeToken\<close> (lines 264-270): the lexeme is the source between \<^verbatim>\<open>start\<close>
  and \<^verbatim>\<open>current\<close>.\<close>

definition makeToken :: "Lexer \<Rightarrow> TokenType \<Rightarrow> Token" where
  "makeToken l ty =
     \<lparr>type = ty, lexeme = take (current l - start l) (drop (start l) (source l)),
      line = lineStart l, col = colStart l\<rparr>"

text \<open>The loop of \<^verbatim>\<open>Lexer::stringToken\<close> (lines 273-283).\<close>

function stringLoop :: "Lexer \<Rightarrow> Lexer" where
  "stringLoop l =
     (if peek l \<noteq> DQ \<and> \<not> isAtEnd l then
        (let l1 = (if peek l = LF then newline l else l);
             l2 = (if peek l1 = BS then adv l1 else l1)
         in stringLoop (adv l2))
      else l)"
  by pat_completeness auto
termination
  by (relation "measure (\<lambda>l. length (source l) - current l)")
     (auto simp: adv_def Lexer_advance_def isAtEnd_def newline_def peek_def Let_def)

declare stringLoop.simps [simp del]

text \<open>\<^verbatim>\<open>Lexer::stringToken\<close> (lines 271-294), entered after the opening quote.\<close>

definition stringToken :: "Lexer \<Rightarrow> Token \<times> Lexer" where
  "stringToken l =
     (let l1 = stringLoop l in
      if isAtEnd l1 then
        (\<lparr>type = Unknown, lexeme = ''Unterminated string.'',
          line = lineStart l1, col = colStart l1\<rparr>, l1)
      else (let l2 = adv l1 in (makeToken l2 String, l2)))"

text \<open>The loops \<^verbatim>\<open>while (std::isdigit(peek()) != 0) advance();\<close> of
  \<^verbatim>\<open>Lexer::numberToken\<close>.\<close>

function skipDigits :: "Lexer \<Rightarrow> Lexer" where
  "skipDigits l = (if isdigit (peek l) then skipDigits (adv l) else l)"
  by pat_completeness auto
termination
  by (relation "measure (\<lambda>l. length (source l) - current l)")
     (auto simp: adv_def Lexer_advance_def isAtEnd_def peek_def isdigit_def split: if_splits)

declare skipDigits.simps [simp del]

text \<open>\<^verbatim>\<open>Lexer::numberToken\<close> (lines 295-316), entered after the first character.\<close>

definition numberToken :: "Lexer \<Rightarrow> Token \<times> Lexer" where
  "numberToken l =
     (let l1 = skipDigits l;
          l2 = (if peek l1 = CHR ''.'' \<and> isdigit (peekNext l1) then skipDigits (adv l1) else l1);
          l3 = (if peek l2 = CHR ''e'' \<or> peek l2 = CHR ''E'' then
                  (let l4 = adv l2;
                       l5 = (if peek l4 = CHR ''+'' \<or> peek l4 = CHR ''-'' then adv l4 else l4)
                   in skipDigits l5)
                else l2)
      in (makeToken l3 Number, l3))"

text \<open>The loop of \<^verbatim>\<open>Lexer::identifierToken\<close> (lines 319-321).\<close>

function skipAlpha :: "Lexer \<Rightarrow> Lexer" where
  "skipAlpha l = (if isalpha (peek l) then skipAlpha (adv l) else l)"
  by pat_completeness auto
termination
  by (relation "measure (\<lambda>l. length (source l) - current l)")
     (auto simp: adv_def Lexer_advance_def isAtEnd_def peek_def isalpha_def split: if_splits)

declare skipAlpha.simps [simp del]

text \<open>\<^verbatim>\<open>Lexer::identifierToken\<close> (lines 317-335).\<close>

definition identifierToken :: "Lexer \<Rightarrow> Token \<times> Lexer" where
  "identifierToken l =
     (let l1 = skipAlpha l;
          text = take (current l1 - start l1) (drop (start l1) (source l1))
      in if text = ''true'' then (makeToken l1 TrueTok, l1)
         else if text = ''false'' then (makeToken l1 FalseTok, l1)
         else if text = ''null'' then (makeToken l1 NullTok, l1)
         else (makeToken l1 Unknown, l1))"

text \<open>\<^verbatim>\<open>Lexer::nextToken\<close> (lines 340-370).\<close>

definition nextToken :: "Lexer \<Rightarrow> Token \<times> Lexer" where
  "nextToken l =
     (let l0 = skipWhitespaceAndComments l;
          l1 = l0\<lparr>start := current l0, lineStart := lineNum l0, colStart := colNum l0\<rparr>
      in if isAtEnd l1 then (makeToken l1 EndOfFile, l1)
         else (let c = fst (Lexer_advance l1); l2 = adv l1 in
           if c = CHR ''{'' then (makeToken l2 LeftBrace, l2)
           else if c = CHR ''}'' then (makeToken l2 RightBrace, l2)
           else if c = CHR ''['' then (makeToken l2 LeftBracket, l2)
           else if c = CHR '']'' then (makeToken l2 RightBracket, l2)
           else if c = CHR '','' then (makeToken l2 Comma, l2)
           else if c = CHR '':'' then (makeToken l2 Colon, l2)
           else if c = DQ then stringToken l2
           else if isdigit c \<or> c = CHR ''-'' then numberToken l2
           else if isalpha c then identifierToken l2
           else (makeToken l2 Unknown, l2)))"

text \<open>The Lexer never changes its source and never moves backwards; it stops at the end of the
  source.\<close>

lemma current_adv_max: "current (adv l) \<le> max (current l) (length (source l))"
  by (simp add: current_adv isAtEnd_def)

lemma current_skipLineComment_max:
  "current (skipLineComment l) \<le> max (current l) (length (source l))"
proof (induction l rule: skipLineComment.induct)
  case (1 l)
  show ?case
  proof (cases "peek l \<noteq> LF \<and> \<not> isAtEnd l")
    case True
    then have "current (skipLineComment (adv l)) \<le> max (current (adv l)) (length (source l))"
      using "1.IH" by simp
    then have "current (skipLineComment (adv l)) \<le> max (current l) (length (source l))"
      using current_adv_max [of l] by simp
    with True show ?thesis by (subst skipLineComment.simps) simp
  next
    case False
    then show ?thesis by (subst skipLineComment.simps) auto
  qed
qed

lemma current_skipBlockComment_max:
  "current (skipBlockComment l) \<le> max (current l) (length (source l))"
proof (induction l rule: skipBlockComment.induct)
  case (1 l)
  show ?case
  proof (cases "(peek l \<noteq> CHR ''*'' \<or> peekNext l \<noteq> CHR ''/'') \<and> \<not> isAtEnd l")
    case True
    define l' where "l' = adv (if peek l = LF then newline l else l)"
    have src: "source l' = source l" by (simp add: l'_def)
    have "current (skipBlockComment l') \<le> max (current l') (length (source l'))"
      using "1.IH" True by (simp add: l'_def)
    moreover have "current l' \<le> max (current l) (length (source l))"
      using current_adv_max [of l] current_adv_max [of "newline l"] by (simp add: l'_def)
    ultimately have "current (skipBlockComment l') \<le> max (current l) (length (source l))"
      using src by simp
    moreover have "skipBlockComment l = skipBlockComment l'"
      unfolding l'_def using True by (subst skipBlockComment.simps) simp
    ultimately show ?thesis by simp
  next
    case False
    then show ?thesis by (subst skipBlockComment.simps) auto
  qed
qed

lemma current_blockComment_le: "current l \<le> current (blockComment l)"
  using current_blockComment [of l] current_adv_le [of l] current_adv_le [of "adv l"]
  by linarith

lemma current_blockComment_max:
  "current (blockComment l) \<le> max (current l) (length (source l))"
proof -
  let ?l1 = "skipBlockComment (adv (adv l))"
  have a: "current (adv (adv l)) \<le> max (current l) (length (source l))"
    using current_adv_max [of l] current_adv_max [of "adv l"] by simp
  have "current ?l1 \<le> max (current (adv (adv l))) (length (source l))"
    using current_skipBlockComment_max [of "adv (adv l)"] by simp
  with a have b: "current ?l1 \<le> max (current l) (length (source l))" by simp
  show ?thesis
    using b by (auto simp: blockComment_def Let_def current_adv isAtEnd_def)
qed

lemma source_skipWhitespaceAndComments [simp]:
  "source (skipWhitespaceAndComments l) = source l"
  by (induction l rule: skipWhitespaceAndComments.induct)
     (subst skipWhitespaceAndComments.simps, simp add: Let_def)

lemma current_skipWhitespaceAndComments:
  "current l \<le> current (skipWhitespaceAndComments l)
   \<and> current (skipWhitespaceAndComments l) \<le> max (current l) (length (source l))"
proof (induction l rule: skipWhitespaceAndComments.induct)
  case (1 l)
  let ?P = "\<lambda>l'. current l \<le> current l' \<and> current l' \<le> max (current l) (length (source l))"
  have step: "?P (skipWhitespaceAndComments l')"
    if "current l \<le> current l'" "current l' \<le> max (current l) (length (source l))"
       "source l' = source l"
       "current l' \<le> current (skipWhitespaceAndComments l')
        \<and> current (skipWhitespaceAndComments l') \<le> max (current l') (length (source l'))"
    for l'
    using that by auto
  consider (ws) "peek l = CHR '' '' \<or> peek l = CR \<or> peek l = TAB"
    | (lf) "\<not> (peek l = CHR '' '' \<or> peek l = CR \<or> peek l = TAB)" "peek l = LF"
    | (line) "peek l = CHR ''/''" "peekNext l = CHR ''/''"
    | (block) "peek l = CHR ''/''" "peekNext l \<noteq> CHR ''/''" "peekNext l = CHR ''*''"
    | (other) "\<not> (peek l = CHR '' '' \<or> peek l = CR \<or> peek l = TAB)" "peek l \<noteq> LF"
        "peek l = CHR ''/'' \<longrightarrow> peekNext l \<noteq> CHR ''/'' \<and> peekNext l \<noteq> CHR ''*''"
    by blast
  then show ?case
  proof cases
    case ws
    then have "skipWhitespaceAndComments l = skipWhitespaceAndComments (adv l)"
      by (subst skipWhitespaceAndComments.simps) (auto simp: Let_def)
    moreover have "?P (skipWhitespaceAndComments (adv l))"
      using ws "1.IH"(1) [OF refl] current_adv_le [of l] current_adv_max [of l]
      by (intro step) auto
    ultimately show ?thesis by simp
  next
    case lf
    then have "skipWhitespaceAndComments l = skipWhitespaceAndComments (newline (adv l))"
      by (subst skipWhitespaceAndComments.simps) (auto simp: Let_def)
    moreover have "?P (skipWhitespaceAndComments (newline (adv l)))"
      using lf "1.IH"(2) [OF refl] current_adv_le [of l] current_adv_max [of l]
      by (intro step) auto
    ultimately show ?thesis by simp
  next
    case line
    then have "skipWhitespaceAndComments l = skipWhitespaceAndComments (skipLineComment l)"
      by (subst skipWhitespaceAndComments.simps) (auto simp: Let_def)
    moreover have "?P (skipWhitespaceAndComments (skipLineComment l))"
      using line "1.IH"(3) [OF refl] current_skipLineComment [of l]
        current_skipLineComment_max [of l]
      by (intro step) auto
    ultimately show ?thesis by simp
  next
    case block
    then have "skipWhitespaceAndComments l = skipWhitespaceAndComments (blockComment l)"
      by (subst skipWhitespaceAndComments.simps) (auto simp: Let_def)
    moreover have "?P (skipWhitespaceAndComments (blockComment l))"
      using block "1.IH"(4) [OF refl] current_blockComment_le [of l]
        current_blockComment_max [of l]
      by (intro step) auto
    ultimately show ?thesis by simp
  next
    case other
    then have "skipWhitespaceAndComments l = l"
      by (subst skipWhitespaceAndComments.simps) (auto simp: Let_def)
    then show ?thesis by simp
  qed
qed

subsection \<open>The C++ standard library: decimal conversions of \<^verbatim>\<open>double\<close>\<close>

text \<open>
  The repository calls \<^verbatim>\<open>std::to_string(size_t)\<close>, \<^verbatim>\<open>std::stod\<close> and
  \<^verbatim>\<open>operator<<(std::ostream&, double)\<close> and defines none of them. They are modelled here
  from the C and C++ standards (IEEE 754 binary64, round to nearest even, "C" locale).

  A finite \<^verbatim>\<open>double\<close> is modelled by the rational number it denotes, and the two zeros,
  which compare equal, by \<open>0\<close>. Infinities and NaN are not modelled. \<^verbatim>\<open>parse\<close> cannot
  produce them: the text handed to \<^verbatim>\<open>std::stod\<close> is a Number lexeme, which starts with a
  digit or \<^verbatim>\<open>-\<close>, and an overflow is an exception. A value built by the constructor
  \<^verbatim>\<open>JsonValue(double)\<close> can hold them, and \<^verbatim>\<open>serialise\<close> then writes \<^verbatim>\<open>inf\<close> or
  \<^verbatim>\<open>nan\<close>, which the Lexer reads as an unknown word; the statements below about
  \<^verbatim>\<open>serialise\<close> are about finite numbers only.
\<close>

type_synonym double = rat

definition digit_char :: "int \<Rightarrow> char" where
  "digit_char n = char_of (48 + n)"

definition digit_val :: "char \<Rightarrow> int" where
  "digit_val c = of_char c - 48"

text \<open>The decimal digits of a natural number, and the number a digit string denotes.\<close>

function decimal :: "int \<Rightarrow> string" where
  "decimal n = (if n < 10 then [digit_char n] else decimal (n div 10) @ [digit_char (n mod 10)])"
  by pat_completeness auto
termination
  by (relation "measure nat") auto

declare decimal.simps [simp del]

definition digits_val :: "string \<Rightarrow> int" where
  "digits_val ds = foldl (\<lambda>a c. 10 * a + digit_val c) 0 ds"

text \<open>\<^verbatim>\<open>std::to_string\<close> on an unsigned integer.\<close>

definition to_string :: "nat \<Rightarrow> string" where
  "to_string n = decimal (int n)"

text \<open>The number of digits of a positive integer \<open>n\<close> in base \<open>b\<close>.\<close>

function ndigits :: "int \<Rightarrow> int \<Rightarrow> nat" where
  "ndigits b n = (if n \<le> 0 \<or> b \<le> 1 then 0 else Suc (ndigits b (n div b)))"
  by pat_completeness auto
termination
proof (relation "measure (\<lambda>(b, n). nat n)")
  show "wf (measure (\<lambda>(b, n). nat n))" by simp
next
  fix b n :: int
  assume "\<not> (n \<le> 0 \<or> b \<le> 1)"
  then have "0 < n" "1 < b" by auto
  then have "n div b < n" by (simp add: int_div_less_self)
  moreover have "0 \<le> n div b" using \<open>0 < n\<close> \<open>1 < b\<close> by (simp add: pos_imp_zdiv_nonneg_iff)
  ultimately show "((b, n div b), (b, n)) \<in> measure (\<lambda>(b, n). nat n)" by simp
qed

declare ndigits.simps [simp del]

text \<open>\<open>scale b a k\<close> is \<open>a * b\<^sup>k\<close> for an integer exponent \<open>k\<close>.\<close>

definition scale :: "int \<Rightarrow> rat \<Rightarrow> int \<Rightarrow> rat" where
  "scale b a k = (if 0 \<le> k then a * of_int (b ^ nat k) else a / of_int (b ^ nat (- k)))"

text \<open>\<open>ilog b a\<close> is the integer part of the logarithm of a positive rational \<open>a\<close> to the base
  \<open>b\<close>, computed from the numbers of digits of its numerator and denominator.\<close>

definition ilog :: "int \<Rightarrow> rat \<Rightarrow> int" where
  "ilog b a =
     (let (n, d) = quotient_of a;
          e = int (ndigits b n) - int (ndigits b d)
      in if scale b 1 e \<le> a then e else e - 1)"

definition round_half_even :: "rat \<Rightarrow> int" where
  "round_half_even r =
     (let f = \<lfloor>r\<rfloor>; d = r - of_int f
      in if d < 1 / 2 then f else if 1 / 2 < d then f + 1 else if even f then f else f + 1)"

text \<open>Rounding to the nearest binary64 value, ties to even: 53 bits of precision, the least
  exponent of a unit in the last place is \<open>-1074\<close>. Overflow is tested by the caller.\<close>

definition round_double :: "rat \<Rightarrow> double" where
  "round_double q =
     (if q = 0 then 0
      else (let a = \<bar>q\<bar>;
                k = max (ilog 2 a - 52) (- 1074)
            in sgn q * scale 2 (of_int (round_half_even (scale 2 a (- k)))) k))"

datatype stod_result = Converted double nat | Invalid_argument | Out_of_range

text \<open>
  \<^verbatim>\<open>std::stod(str, &pos)\<close>, that is \<^verbatim>\<open>strtod\<close>, on decimal text: an optional sign, digits
  with an optional radix point (at least one digit), an optional exponent (taken only when it
  has a digit). \<open>Converted v pos\<close> is the value and the number of characters read;
  \<open>Invalid_argument\<close> and \<open>Out_of_range\<close> are the two exceptions. \<^verbatim>\<open>strtod\<close> reports a range
  error when the value overflows (it is \<open>2\<^sup>1\<^sup>0\<^sup>2\<^sup>4\<close> or more after rounding), and (glibc) when
  the result is tiny and not exact; it is tiny when it is still below the least normal number
  \<open>2\<^sup>-\<^sup>1\<^sup>0\<^sup>2\<^sup>2\<close> after rounding to 53 bits with no bound on the exponent (\<open>u\<close> below). Leading
  white space, hexadecimal, \<^verbatim>\<open>inf\<close> and \<^verbatim>\<open>nan\<close> are left out: no Number lexeme holds
  them.
\<close>

definition stod :: "string \<Rightarrow> stod_result" where
  "stod str =
     (let signed = (str \<noteq> [] \<and> (hd str = CHR ''-'' \<or> hd str = CHR ''+''));
          neg = (str \<noteq> [] \<and> hd str = CHR ''-'');
          s1 = (if signed then tl str else str);
          ip = takeWhile isdigit s1;
          s2 = dropWhile isdigit s1;
          dot = (s2 \<noteq> [] \<and> hd s2 = CHR ''.'');
          fp = (if dot then takeWhile isdigit (tl s2) else []);
          s3 = (if dot then dropWhile isdigit (tl s2) else s2);
          s4 = (if s3 \<noteq> [] \<and> (hd s3 = CHR ''e'' \<or> hd s3 = CHR ''E'') then tl s3 else []);
          eneg = (s4 \<noteq> [] \<and> hd s4 = CHR ''-'');
          s5 = (if s4 \<noteq> [] \<and> (hd s4 = CHR ''-'' \<or> hd s4 = CHR ''+'') then tl s4 else s4);
          ed = takeWhile isdigit s5;
          ex = (if eneg then - digits_val ed else digits_val ed);
          pos = (if ed = [] then length str - length s3 else length str - length s5 + length ed);
          q = scale 10 (of_int (digits_val (ip @ fp))) (ex - int (length fp));
          r = round_double (if neg then - q else q)
      in if ip = [] \<and> fp = [] then Invalid_argument
         else if r \<noteq> 0 \<and> 1024 \<le> ilog 2 \<bar>r\<bar> then Out_of_range
         else if q \<noteq> 0 \<and> ilog 2 q < - 1022 then
           (let k = ilog 2 q - 52;
                u = scale 2 (of_int (round_half_even (scale 2 q (- k)))) k
            in if u < scale 2 1 (- 1022) \<and> \<bar>r\<bar> \<noteq> q then Out_of_range else Converted r pos)
         else Converted r pos)"

text \<open>
  \<^verbatim>\<open>os << d\<close> for a \<^verbatim>\<open>double\<close> on a stream in its default state is
  \<^verbatim>\<open>printf("%g", d)\<close>: six significant digits; with \<open>x\<close> the decimal exponent after rounding,
  fixed notation when \<open>-4 \<le> x < 6\<close> and scientific notation otherwise; trailing zeros of the
  fraction, and a radix point left without a fraction, are removed.
\<close>

definition fraction :: "string \<Rightarrow> string" where
  "fraction fs =
     (let fs' = rev (dropWhile (\<lambda>c. c = CHR ''0'') (rev fs))
      in if fs' = [] then [] else CHR ''.'' # fs')"

definition exponent_digits :: "nat \<Rightarrow> string" where
  "exponent_digits n = (if n < 10 then CHR ''0'' # to_string n else to_string n)"

definition show_double :: "double \<Rightarrow> string" where
  "show_double q =
     (if q = 0 then ''0''
      else (let a = \<bar>q\<bar>;
                x0 = ilog 10 a;
                m0 = round_half_even (scale 10 a (5 - x0));
                x = (if m0 = 1000000 then x0 + 1 else x0);
                ds = decimal (if m0 = 1000000 then 100000 else m0);
                body =
                  (if x < - 4 \<or> 6 \<le> x then
                     take 1 ds @ fraction (drop 1 ds) @
                       CHR ''e'' # (if x < 0 then CHR ''-'' else CHR ''+'') # exponent_digits (nat \<bar>x\<bar>)
                   else if 0 \<le> x then take (nat x + 1) ds @ fraction (drop (nat x + 1) ds)
                   else CHR ''0'' # fraction (replicate (nat (- x) - 1) (CHR ''0'') @ ds))
            in (if q < 0 then [CHR ''-''] else []) @ body))"

subsection \<open>Values (json.h, lines 36-77)\<close>

text \<open>
  \<^verbatim>\<open>JsonValue\<close> is a variant over \<^verbatim>\<open>nullptr_t\<close>, \<^verbatim>\<open>bool\<close>, \<^verbatim>\<open>double\<close>,
  \<^verbatim>\<open>std::string\<close>, \<^verbatim>\<open>JsonArray\<close> (a vector) and \<^verbatim>\<open>JsonObject\<close>, a
  \<^verbatim>\<open>std::map<std::string, JsonValue>\<close>. The map is modelled by the list of its entries in
  iteration order; \<open>map_assign\<close> is \<^verbatim>\<open>object[key] = value\<close> on that list: the entries are
  kept in increasing order of the keys (\<^verbatim>\<open>std::less<std::string>\<close>, bytes compared as
  unsigned) and an entry with an equal key is overwritten.
\<close>

datatype JsonValue =
    JNull
  | JBool bool
  | JNumber double
  | JString string
  | JArray "JsonValue list"
  | JObject "(string \<times> JsonValue) list"

fun map_assign :: "string \<Rightarrow> 'v \<Rightarrow> (string \<times> 'v) list \<Rightarrow> (string \<times> 'v) list" where
  "map_assign k v [] = [(k, v)]"
| "map_assign k v ((k', v') # m) =
     (if k < k' then (k, v) # (k', v') # m
      else if k = k' then (k, v) # m
      else (k', v') # map_assign k v m)"

subsection \<open>Errors (json.cc, lines 84-97)\<close>

datatype ParsingError = Error (what: string) (error_line: nat) (error_col: nat)

text \<open>The constructor \<^verbatim>\<open>ParsingError(message, line, col)\<close>.\<close>

definition ParsingError :: "string \<Rightarrow> nat \<Rightarrow> nat \<Rightarrow> ParsingError" where
  "ParsingError message lnum cnum =
     Error (message @ '' (at line '' @ to_string lnum @ '', col '' @ to_string cnum @ '')'') lnum cnum"

subsection \<open>The Parser (json.cc, lines 59-77 and 371-521)\<close>

record Parser =
  lexer :: Lexer
  currentToken :: Token
  previousToken :: Token

text \<open>\<^verbatim>\<open>Parser::advance\<close> (lines 376-384).\<close>

definition Parser_advance :: "Parser \<Rightarrow> ParsingError + Parser" where
  "Parser_advance p =
     (let (tok, lx) = nextToken (lexer p);
          p' = p\<lparr>previousToken := currentToken p, currentToken := tok, lexer := lx\<rparr>
      in if type tok = Unknown then
           Inl (ParsingError ''Unexpected character or unterminated literal'' (line tok) (col tok))
         else Inr p')"

text \<open>The constructor \<^verbatim>\<open>Parser(source)\<close> (lines 371-375). The two token members are not
  initialised by the source; the first \<^verbatim>\<open>advance\<close> overwrites one and copies the other, and
  \<^verbatim>\<open>previousToken\<close> is never read. They start here as a fixed token.\<close>

definition Parser_init :: "string \<Rightarrow> ParsingError + Parser" where
  "Parser_init src =
     (let t0 = \<lparr>type = EndOfFile, lexeme = [], line = 0, col = 0\<rparr>
      in Parser_advance \<lparr>lexer = Lexer_init src, currentToken = t0, previousToken = t0\<rparr>)"

text \<open>\<^verbatim>\<open>Parser::consume\<close> (lines 385-392).\<close>

definition consume :: "TokenType \<Rightarrow> string \<Rightarrow> Parser \<Rightarrow> ParsingError + Parser" where
  "consume ty message p =
     (if type (currentToken p) = ty then Parser_advance p
      else Inl (ParsingError message (line (currentToken p)) (col (currentToken p))))"

text \<open>The \<^verbatim>\<open>switch\<close> of \<^verbatim>\<open>Parser::parseString\<close> (lines 419-432): the character an escape
  stands for.\<close>

definition unescape :: "char \<Rightarrow> char" where
  "unescape c =
     (if c = DQ then DQ
      else if c = BS then BS
      else if c = CHR ''/'' then CHR ''/''
      else if c = CHR ''b'' then BSP
      else if c = CHR ''f'' then FF
      else if c = CHR ''n'' then LF
      else if c = CHR ''r'' then CR
      else if c = CHR ''t'' then TAB
      else c)"

text \<open>The loop of \<^verbatim>\<open>Parser::parseString\<close> (lines 416-436) over the lexeme \<open>view\<close>, from index
  \<open>i\<close>, appending to \<open>result\<close>. A String lexeme has its two quotes, so
  \<^verbatim>\<open>view.length() - 1\<close> does not wrap.\<close>

function parseStringLoop :: "string \<Rightarrow> nat \<Rightarrow> string \<Rightarrow> string" where
  "parseStringLoop view i result =
     (if i < length view - 1 then
        (if view ! i = BS \<and> i + 1 < length view - 1
         then parseStringLoop view (i + 2) (result @ [unescape (view ! (i + 1))])
         else parseStringLoop view (i + 1) (result @ [view ! i]))
      else result)"
  by pat_completeness auto
termination
  by (relation "measure (\<lambda>(view, i, result). length view - i)") auto

declare parseStringLoop.simps [simp del]

text \<open>\<^verbatim>\<open>Parser::parseString\<close> (lines 409-439).\<close>

definition parseString :: "Parser \<Rightarrow> ParsingError + JsonValue \<times> Parser" where
  "parseString p =
     (let result = parseStringLoop (lexeme (currentToken p)) 1 []
      in case Parser_advance p of
           Inl e \<Rightarrow> Inl e
         | Inr p' \<Rightarrow> Inr (JString result, p'))"

text \<open>\<^verbatim>\<open>Parser::parseNumber\<close> (lines 440-461).\<close>

definition parseNumber :: "Parser \<Rightarrow> ParsingError + JsonValue \<times> Parser" where
  "parseNumber p =
     (let numStr = lexeme (currentToken p); lnum = line (currentToken p); cnum = col (currentToken p)
      in case stod numStr of
           Converted v pos \<Rightarrow>
             (if pos \<noteq> length numStr then
                Inl (ParsingError ''Invalid characters in number literal.'' lnum cnum)
              else (case Parser_advance p of
                      Inl e \<Rightarrow> Inl e
                    | Inr p' \<Rightarrow> Inr (JNumber v, p')))
         | Invalid_argument \<Rightarrow> Inl (ParsingError ''Invalid number format.'' lnum cnum)
         | Out_of_range \<Rightarrow> Inl (ParsingError ''Number is out of range for a double.'' lnum cnum))"

text \<open>
  \<^verbatim>\<open>Parser::parseValue\<close> (lines 393-408), \<^verbatim>\<open>Parser::parseObject\<close> (lines 462-490) and
  \<^verbatim>\<open>Parser::parseArray\<close> (lines 491-508). The two \<^verbatim>\<open>while (true)\<close> loops are
  \<open>parseObjectLoop\<close> and \<open>parseArrayLoop\<close>, entered at the top of the loop body with the
  container built so far.
\<close>

function parseValue :: "Parser \<Rightarrow> ParsingError + JsonValue \<times> Parser"
  and parseObject :: "Parser \<Rightarrow> ParsingError + (string \<times> JsonValue) list \<times> Parser"
  and parseObjectLoop ::
    "(string \<times> JsonValue) list \<Rightarrow> Parser \<Rightarrow> ParsingError + (string \<times> JsonValue) list \<times> Parser"
  and parseArray :: "Parser \<Rightarrow> ParsingError + JsonValue list \<times> Parser"
  and parseArrayLoop :: "JsonValue list \<Rightarrow> Parser \<Rightarrow> ParsingError + JsonValue list \<times> Parser"
where
  "parseValue p =
     (case type (currentToken p) of
        LeftBrace \<Rightarrow>
          (case parseObject p of Inl e \<Rightarrow> Inl e | Inr (obj, p') \<Rightarrow> Inr (JObject obj, p'))
      | LeftBracket \<Rightarrow>
          (case parseArray p of Inl e \<Rightarrow> Inl e | Inr (arr, p') \<Rightarrow> Inr (JArray arr, p'))
      | String \<Rightarrow> parseString p
      | Number \<Rightarrow> parseNumber p
      | TrueTok \<Rightarrow> (case Parser_advance p of Inl e \<Rightarrow> Inl e | Inr p' \<Rightarrow> Inr (JBool True, p'))
      | FalseTok \<Rightarrow> (case Parser_advance p of Inl e \<Rightarrow> Inl e | Inr p' \<Rightarrow> Inr (JBool False, p'))
      | NullTok \<Rightarrow> (case Parser_advance p of Inl e \<Rightarrow> Inl e | Inr p' \<Rightarrow> Inr (JNull, p'))
      | _ \<Rightarrow>
          Inl (ParsingError
                 ''Expected a value (object, array, string, number, true, false, or null).''
                 (line (currentToken p)) (col (currentToken p))))"
| "parseObject p =
     (case consume LeftBrace ''Expected '{' to start an object.'' p of
        Inl e \<Rightarrow> Inl e
      | Inr p1 \<Rightarrow>
          (case (if type (currentToken p1) \<noteq> RightBrace then parseObjectLoop [] p1
                 else Inr ([], p1)) of
             Inl e \<Rightarrow> Inl e
           | Inr (object, p2) \<Rightarrow>
               (case consume RightBrace ''Expected '}' to end an object.'' p2 of
                  Inl e \<Rightarrow> Inl e
                | Inr p3 \<Rightarrow> Inr (object, p3))))"
| "parseObjectLoop object p =
     (if type (currentToken p) \<noteq> String then
        Inl (ParsingError ''Expected a string key for object member.''
               (line (currentToken p)) (col (currentToken p)))
      else
        (let key = take (length (lexeme (currentToken p)) - 2) (drop 1 (lexeme (currentToken p)))
         in case Parser_advance p of
              Inl e \<Rightarrow> Inl e
            | Inr p1 \<Rightarrow>
                (case consume Colon ''Expected ':' after object key.'' p1 of
                   Inl e \<Rightarrow> Inl e
                 | Inr p2 \<Rightarrow>
                     (case parseValue p2 of
                        Inl e \<Rightarrow> Inl e
                      | Inr (v, p3) \<Rightarrow>
                          (if type (currentToken p3) = RightBrace
                           then Inr (map_assign key v object, p3)
                           else (case consume Comma ''Expected ',' or '}' after object member.'' p3 of
                                   Inl e \<Rightarrow> Inl e
                                 | Inr p4 \<Rightarrow> parseObjectLoop (map_assign key v object) p4))))))"
| "parseArray p =
     (case consume LeftBracket ''Expected '[' to start an array.'' p of
        Inl e \<Rightarrow> Inl e
      | Inr p1 \<Rightarrow>
          (case (if type (currentToken p1) \<noteq> RightBracket then parseArrayLoop [] p1
                 else Inr ([], p1)) of
             Inl e \<Rightarrow> Inl e
           | Inr (array, p2) \<Rightarrow>
               (case consume RightBracket ''Expected ']' to end an array.'' p2 of
                  Inl e \<Rightarrow> Inl e
                | Inr p3 \<Rightarrow> Inr (array, p3))))"
| "parseArrayLoop array p =
     (case parseValue p of
        Inl e \<Rightarrow> Inl e
      | Inr (v, p1) \<Rightarrow>
          (if type (currentToken p1) = RightBracket then Inr (array @ [v], p1)
           else (case consume Comma ''Expected ',' or ']' after array element.'' p1 of
                   Inl e \<Rightarrow> Inl e
                 | Inr p2 \<Rightarrow> parseArrayLoop (array @ [v]) p2)))"
  by pat_completeness auto

subsection \<open>Progress of the Lexer, and termination of the Parser\<close>

text \<open>\<open>advanced l l'\<close>: the Lexer state \<open>l'\<close> reads the same source as \<open>l\<close>, at a position that
  is not before that of \<open>l\<close> and not after the end of the source (unless \<open>l\<close> was already
  there).\<close>

definition advanced :: "Lexer \<Rightarrow> Lexer \<Rightarrow> bool" where
  "advanced l l' =
     (source l' = source l \<and> current l \<le> current l'
      \<and> current l' \<le> max (current l) (length (source l)))"

lemma advanced_refl [simp]: "advanced l l"
  by (simp add: advanced_def)

lemma advanced_trans: "advanced l l' \<Longrightarrow> advanced l' l'' \<Longrightarrow> advanced l l''"
  by (auto simp: advanced_def)

lemma advanced_adv [simp]: "advanced l (adv l)"
  by (simp add: advanced_def current_adv isAtEnd_def)

lemma advanced_newline [simp]: "advanced l (newline l)"
  by (simp add: advanced_def)

lemma advanced_skipWhitespaceAndComments [simp]: "advanced l (skipWhitespaceAndComments l)"
  using current_skipWhitespaceAndComments [of l] by (simp add: advanced_def)

lemma advanced_stringLoop [simp]: "advanced l (stringLoop l)"
proof (induction l rule: stringLoop.induct)
  case (1 l)
  show ?case
  proof (cases "peek l \<noteq> DQ \<and> \<not> isAtEnd l")
    case True
    define l1 where "l1 = (if peek l = LF then newline l else l)"
    define l2 where "l2 = (if peek l1 = BS then adv l1 else l1)"
    have "advanced l l1" by (simp add: l1_def)
    moreover have "advanced l1 l2" by (simp add: l2_def)
    moreover have "advanced l2 (adv l2)" by simp
    moreover have "advanced (adv l2) (stringLoop (adv l2))"
      using "1.IH" [OF True l1_def l2_def] .
    ultimately have "advanced l (stringLoop (adv l2))"
      by (meson advanced_trans)
    moreover have "stringLoop l = stringLoop (adv l2)"
      unfolding l2_def l1_def using True by (subst stringLoop.simps) (simp add: Let_def)
    ultimately show ?thesis by simp
  next
    case False
    then have "stringLoop l = l" by (subst stringLoop.simps) auto
    then show ?thesis by simp
  qed
qed

lemma advanced_skipDigits [simp]: "advanced l (skipDigits l)"
proof (induction l rule: skipDigits.induct)
  case (1 l)
  show ?case
  proof (cases "isdigit (peek l)")
    case True
    then have "advanced l (skipDigits (adv l))"
      using "1.IH" advanced_adv [of l] by (meson advanced_trans)
    moreover have "skipDigits l = skipDigits (adv l)"
      using True by (subst skipDigits.simps) simp
    ultimately show ?thesis by simp
  next
    case False
    then have "skipDigits l = l" by (subst skipDigits.simps) simp
    then show ?thesis by simp
  qed
qed

lemma advanced_skipAlpha [simp]: "advanced l (skipAlpha l)"
proof (induction l rule: skipAlpha.induct)
  case (1 l)
  show ?case
  proof (cases "isalpha (peek l)")
    case True
    then have "advanced l (skipAlpha (adv l))"
      using "1.IH" advanced_adv [of l] by (meson advanced_trans)
    moreover have "skipAlpha l = skipAlpha (adv l)"
      using True by (subst skipAlpha.simps) simp
    ultimately show ?thesis by simp
  next
    case False
    then have "skipAlpha l = l" by (subst skipAlpha.simps) simp
    then show ?thesis by simp
  qed
qed

lemma advanced_stringToken: "advanced l (snd (stringToken l))"
proof -
  have "advanced l (stringLoop l)" by simp
  moreover have "advanced (stringLoop l) (adv (stringLoop l))" by simp
  ultimately have "advanced l (adv (stringLoop l))" by (rule advanced_trans)
  then show ?thesis by (simp add: stringToken_def Let_def)
qed

lemma advanced_numberToken: "advanced l (snd (numberToken l))"
proof -
  define l1 where "l1 = skipDigits l"
  define l2 where
    "l2 = (if peek l1 = CHR ''.'' \<and> isdigit (peekNext l1) then skipDigits (adv l1) else l1)"
  define l4 where "l4 = adv l2"
  define l5 where "l5 = (if peek l4 = CHR ''+'' \<or> peek l4 = CHR ''-'' then adv l4 else l4)"
  define l3 where
    "l3 = (if peek l2 = CHR ''e'' \<or> peek l2 = CHR ''E'' then skipDigits l5 else l2)"
  have a1: "advanced l l1" by (simp add: l1_def)
  have "advanced l1 (skipDigits (adv l1))"
    using advanced_adv [of l1] advanced_skipDigits [of "adv l1"] by (rule advanced_trans)
  then have a2: "advanced l1 l2" by (simp add: l2_def)
  have a4: "advanced l2 l4" by (simp add: l4_def)
  have a5: "advanced l4 l5" by (simp add: l5_def)
  have "advanced l2 (skipDigits l5)"
    using a4 a5 advanced_skipDigits [of l5] by (meson advanced_trans)
  then have a3: "advanced l2 l3" by (simp add: l3_def)
  have "advanced l l3" using a1 a2 a3 by (meson advanced_trans)
  moreover have "snd (numberToken l) = l3"
    by (simp add: numberToken_def Let_def l1_def l2_def l3_def l4_def l5_def)
  ultimately show ?thesis by simp
qed

lemma advanced_identifierToken: "advanced l (snd (identifierToken l))"
  by (simp add: identifierToken_def Let_def)

text \<open>\<^verbatim>\<open>nextToken\<close> moves forward, and every token but EndOfFile takes at least one
  character.\<close>

lemma nextToken_progress:
  assumes "nextToken l = (tok, l')"
  shows "source l' = source l"
    and "current l \<le> current l'"
    and "type tok \<noteq> EndOfFile \<Longrightarrow> current l < current l' \<and> current l' \<le> length (source l)"
proof -
  define l0 where "l0 = skipWhitespaceAndComments l"
  define l1 where "l1 = l0\<lparr>start := current l0, lineStart := lineNum l0, colStart := colNum l0\<rparr>"
  have a0: "advanced l l0" by (simp add: l0_def)
  have a1: "advanced l l1" using a0 by (simp add: advanced_def l1_def)
  have "source l' = source l \<and> current l \<le> current l'
    \<and> (type tok \<noteq> EndOfFile \<longrightarrow> current l < current l' \<and> current l' \<le> length (source l))"
  proof (cases "isAtEnd l1")
    case True
    then have "tok = makeToken l1 EndOfFile" "l' = l1"
      using assms by (auto simp add: nextToken_def Let_def l0_def l1_def)
    then show ?thesis
      using a1 by (simp add: advanced_def makeToken_def)
  next
    case False
    define l2 where "l2 = adv l1"
    have c2: "current l2 = current l1 + 1" "current l1 < length (source l1)"
      using False by (simp_all add: l2_def current_adv isAtEnd_def)
    have a2: "advanced l1 l2" by (simp add: l2_def)
    have "l' = l2 \<or> l' = snd (stringToken l2) \<or> l' = snd (numberToken l2)
        \<or> l' = snd (identifierToken l2)"
      using assms False
      by (auto simp: nextToken_def Let_def l0_def l1_def l2_def split: if_splits)
    then have "advanced l2 l'"
      using advanced_stringToken [of l2] advanced_numberToken [of l2]
        advanced_identifierToken [of l2]
      by auto
    then show ?thesis
      using a1 a2 c2 by (auto simp: advanced_def)
  qed
  then show "source l' = source l" "current l \<le> current l'"
    "type tok \<noteq> EndOfFile \<Longrightarrow> current l < current l' \<and> current l' \<le> length (source l)"
    by simp_all
qed

text \<open>The measure of a Parser state: twice the input left to the Lexer, plus one when the
  current token is not EndOfFile.\<close>

definition parser_measure :: "Parser \<Rightarrow> nat" where
  "parser_measure p =
     2 * (length (source (lexer p)) - current (lexer p))
     + (if type (currentToken p) = EndOfFile then 0 else 1)"

lemma Parser_advance_measure:
  assumes "Parser_advance p = Inr p'"
  shows "parser_measure p' \<le> parser_measure p"
    and "type (currentToken p) \<noteq> EndOfFile \<Longrightarrow> parser_measure p' < parser_measure p"
proof -
  obtain tok lx where n: "nextToken (lexer p) = (tok, lx)" by (cases "nextToken (lexer p)")
  have p': "lexer p' = lx" "currentToken p' = tok"
    using assms n by (auto simp: Parser_advance_def Let_def split: if_splits)
  note pr = nextToken_progress [OF n]
  show "parser_measure p' \<le> parser_measure p"
    using pr p' by (cases "type tok = EndOfFile") (auto simp: parser_measure_def)
  show "type (currentToken p) \<noteq> EndOfFile \<Longrightarrow> parser_measure p' < parser_measure p"
    using pr p' by (cases "type tok = EndOfFile") (auto simp: parser_measure_def)
qed

lemma consume_measure:
  assumes "consume ty msg p = Inr p'" "ty \<noteq> EndOfFile"
  shows "parser_measure p' < parser_measure p"
  using assms Parser_advance_measure(2) [of p p']
  by (auto simp: consume_def split: if_splits)

lemma parseString_measure:
  "parseString p = Inr (v, p') \<Longrightarrow> parser_measure p' \<le> parser_measure p"
  using Parser_advance_measure(1) [of p p']
  by (auto simp: parseString_def Let_def split: sum.splits)

lemma parseNumber_measure:
  "parseNumber p = Inr (v, p') \<Longrightarrow> parser_measure p' \<le> parser_measure p"
  using Parser_advance_measure(1) [of p p']
  by (auto simp: parseNumber_def Let_def split: sum.splits stod_result.splits if_splits)

text \<open>Where the Parser functions are defined, they do not increase the measure; so they
  terminate.\<close>

lemma parse_measure_dom:
  "parseValue_parseObject_parseObjectLoop_parseArray_parseArrayLoop_dom (Inl (Inl p)) \<Longrightarrow>
     parseValue p = Inr (v, p') \<Longrightarrow> parser_measure p' \<le> parser_measure p"
  "parseValue_parseObject_parseObjectLoop_parseArray_parseArrayLoop_dom (Inl (Inr p)) \<Longrightarrow>
     parseObject p = Inr (ob, p') \<Longrightarrow> parser_measure p' \<le> parser_measure p"
  "parseValue_parseObject_parseObjectLoop_parseArray_parseArrayLoop_dom (Inr (Inl (object, p))) \<Longrightarrow>
     parseObjectLoop object p = Inr (ob, p') \<Longrightarrow> parser_measure p' \<le> parser_measure p"
  "parseValue_parseObject_parseObjectLoop_parseArray_parseArrayLoop_dom (Inr (Inr (Inl p))) \<Longrightarrow>
     parseArray p = Inr (ar, p') \<Longrightarrow> parser_measure p' \<le> parser_measure p"
  "parseValue_parseObject_parseObjectLoop_parseArray_parseArrayLoop_dom (Inr (Inr (Inr (array, p)))) \<Longrightarrow>
     parseArrayLoop array p = Inr (ar, p') \<Longrightarrow> parser_measure p' \<le> parser_measure p"
proof (induct p and p and object p and p and array p
    arbitrary: v p' and ob p' and ob p' and ar p' and ar p'
    rule: parseValue_parseObject_parseObjectLoop_parseArray_parseArrayLoop.pinduct)
  case (1 p)
  from "1.prems" show ?case
    apply (subst (asm) parseValue.psimps [OF "1.hyps"(1)])
    apply (auto split: TokenType.splits sum.splits prod.splits
        dest: parseString_measure parseNumber_measure Parser_advance_measure(1)
        "1.hyps"(2) "1.hyps"(3))
    done
next
  case (2 p)
  from "2.prems" obtain p1 p2 where
    c1: "consume LeftBrace ''Expected '{' to start an object.'' p = Inr p1" and
    r: "(if type (currentToken p1) \<noteq> RightBrace then parseObjectLoop [] p1 else Inr ([], p1))
          = Inr (ob, p2)" and
    c3: "consume RightBrace ''Expected '}' to end an object.'' p2 = Inr p'"
    by (subst (asm) parseObject.psimps [OF "2.hyps"(1)])
       (auto split: sum.splits prod.splits)
  have "parser_measure p2 \<le> parser_measure p1"
    using r "2.hyps"(2) [OF c1] by (auto split: if_splits)
  then show ?case
    using consume_measure [OF c1] consume_measure [OF c3] by simp
next
  case (3 object p)
  let ?key = "take (length (lexeme (currentToken p)) - 2) (drop 1 (lexeme (currentToken p)))"
  from "3.prems" obtain p1 p2 v p3 where
    ty: "\<not> type (currentToken p) \<noteq> String" and
    c1: "Parser_advance p = Inr p1" and
    c2: "consume Colon ''Expected ':' after object key.'' p1 = Inr p2" and
    c3: "parseValue p2 = Inr (v, p3)" and
    r: "(if type (currentToken p3) = RightBrace then Inr (map_assign ?key v object, p3)
         else (case consume Comma ''Expected ',' or '}' after object member.'' p3 of
                 Inl e \<Rightarrow> Inl e
               | Inr p4 \<Rightarrow> parseObjectLoop (map_assign ?key v object) p4)) = Inr (ob, p')"
    by (subst (asm) parseObjectLoop.psimps [OF "3.hyps"(1)])
       (auto simp: Let_def split: sum.splits prod.splits if_splits)
  have m1: "parser_measure p1 \<le> parser_measure p" by (rule Parser_advance_measure(1) [OF c1])
  have m2: "parser_measure p2 < parser_measure p1" using consume_measure [OF c2] by simp
  have m3: "parser_measure p3 \<le> parser_measure p2"
    by (rule "3.hyps"(2) [OF ty refl c1 c2 c3])
  have "parser_measure p' \<le> parser_measure p3"
  proof (cases "type (currentToken p3) = RightBrace")
    case True
    then show ?thesis using r by simp
  next
    case False
    then obtain p4 where
      c4: "consume Comma ''Expected ',' or '}' after object member.'' p3 = Inr p4" and
      c5: "parseObjectLoop (map_assign ?key v object) p4 = Inr (ob, p')"
      using r by (auto split: sum.splits)
    have "parser_measure p' \<le> parser_measure p4"
      by (rule "3.hyps"(3) [OF ty refl c1 c2 c3 refl False c4 c5])
    then show ?thesis using consume_measure [OF c4] by simp
  qed
  then show ?case using m1 m2 m3 by simp
next
  case (4 p)
  from "4.prems" obtain p1 p2 where
    c1: "consume LeftBracket ''Expected '[' to start an array.'' p = Inr p1" and
    r: "(if type (currentToken p1) \<noteq> RightBracket then parseArrayLoop [] p1 else Inr ([], p1))
          = Inr (ar, p2)" and
    c3: "consume RightBracket ''Expected ']' to end an array.'' p2 = Inr p'"
    by (subst (asm) parseArray.psimps [OF "4.hyps"(1)])
       (auto split: sum.splits prod.splits)
  have "parser_measure p2 \<le> parser_measure p1"
    using r "4.hyps"(2) [OF c1] by (auto split: if_splits)
  then show ?case
    using consume_measure [OF c1] consume_measure [OF c3] by simp
next
  case (5 array p)
  from "5.prems" obtain v p1 where
    c1: "parseValue p = Inr (v, p1)" and
    r: "(if type (currentToken p1) = RightBracket then Inr (array @ [v], p1)
         else (case consume Comma ''Expected ',' or ']' after array element.'' p1 of
                 Inl e \<Rightarrow> Inl e
               | Inr p2 \<Rightarrow> parseArrayLoop (array @ [v]) p2)) = Inr (ar, p')"
    by (subst (asm) parseArrayLoop.psimps [OF "5.hyps"(1)])
       (auto split: sum.splits prod.splits)
  have m1: "parser_measure p1 \<le> parser_measure p" by (rule "5.hyps"(2) [OF c1])
  have "parser_measure p' \<le> parser_measure p1"
  proof (cases "type (currentToken p1) = RightBracket")
    case True
    then show ?thesis using r by simp
  next
    case False
    then obtain p2 where
      c2: "consume Comma ''Expected ',' or ']' after array element.'' p1 = Inr p2" and
      c3: "parseArrayLoop (array @ [v]) p2 = Inr (ar, p')"
      using r by (auto split: sum.splits)
    have "parser_measure p' \<le> parser_measure p2"
      by (rule "5.hyps"(3) [OF c1 refl False c2 c3])
    then show ?thesis using consume_measure [OF c2] by simp
  qed
  then show ?case using m1 by simp
qed

termination parseValue
  apply (relation "measure (\<lambda>x. case x of
       Inl (Inl p) \<Rightarrow> 3 * parser_measure p + 1
     | Inl (Inr p) \<Rightarrow> 3 * parser_measure p
     | Inr (Inl (ob, p)) \<Rightarrow> 3 * parser_measure p
     | Inr (Inr (Inl p)) \<Rightarrow> 3 * parser_measure p
     | Inr (Inr (Inr (ar, p))) \<Rightarrow> 3 * parser_measure p + 2)")
  apply simp_all
  subgoal for p b
    by (drule consume_measure) simp_all
  subgoal for p x b ba
    by (drule consume_measure, simp, drule Parser_advance_measure(2)) simp_all
  subgoal for p x b ba bb xa y bc
    apply (drule consume_measure, simp)
    apply (drule consume_measure, simp)
    apply (drule Parser_advance_measure(2), simp)
    apply (drule parse_measure_dom(1) [of ba xa y])
     apply simp_all
    done
  subgoal for p b
    by (drule consume_measure) simp_all
  subgoal for p b x y ba
    apply (drule consume_measure, simp)
    apply (drule parse_measure_dom(1) [of p x y])
     apply simp_all
    done
  done

declare parseValue.simps [simp del] parseObject.simps [simp del] parseObjectLoop.simps [simp del]
  parseArray.simps [simp del] parseArrayLoop.simps [simp del]

text \<open>\<^verbatim>\<open>Parser::parse\<close> (lines 509-521) and \<^verbatim>\<open>json::parse\<close> (lines 79-82). The Parser
  state after the value is dropped: nothing looks at the tokens that follow.\<close>

definition parse :: "string \<Rightarrow> ParsingError + JsonValue" where
  "parse src =
     (let src' = (if 3 \<le> length src \<and> src ! 0 = CHR 0xEF \<and> src ! 1 = CHR 0xBB \<and> src ! 2 = CHR 0xBF
                  then drop 3 src else src)
      in case Parser_init src' of
           Inl e \<Rightarrow> Inl e
         | Inr parser \<Rightarrow> (case parseValue parser of Inl e \<Rightarrow> Inl e | Inr (v, p') \<Rightarrow> Inr v))"

subsection \<open>The serialiser (json.cc, lines 522-569)\<close>

text \<open>
  \<^verbatim>\<open>serialise(val, os, indent)\<close> writes to the stream; \<open>serialise val indent\<close> is the text
  written, for a stream in its default formatting state and \<open>0 \<le> indent\<close>. The two loops over
  the elements of an array and the entries of an object are \<open>serialiseArray\<close> and
  \<open>serialiseObject\<close>: the test \<^verbatim>\<open>i < arg.size() - 1\<close> holds for all but the last element.
\<close>

fun serialise :: "JsonValue \<Rightarrow> nat \<Rightarrow> string"
  and serialiseArray :: "JsonValue list \<Rightarrow> nat \<Rightarrow> string"
  and serialiseObject :: "(string \<times> JsonValue) list \<Rightarrow> nat \<Rightarrow> string"
where
  "serialise JNull indent = ''null''"
| "serialise (JBool b) indent = (if b then ''true'' else ''false'')"
| "serialise (JNumber d) indent = show_double d"
| "serialise (JString s) indent = DQ # s @ [DQ]"
| "serialise (JArray arg) indent =
     CHR ''['' # LF # serialiseArray arg indent @ replicate indent (CHR '' '') @ '']''"
| "serialise (JObject arg) indent =
     CHR ''{'' # LF # serialiseObject arg indent @ replicate indent (CHR '' '') @ ''}''"
| "serialiseArray [] indent = []"
| "serialiseArray (x # xs) indent =
     replicate (indent + 2) (CHR '' '') @ serialise x (indent + 2)
     @ (if xs \<noteq> [] then '','' else []) @ [LF] @ serialiseArray xs indent"
| "serialiseObject [] indent = []"
| "serialiseObject ((key, v) # xs) indent =
     replicate (indent + 2) (CHR '' '') @ DQ # key @ DQ # '': '' @ serialise v (indent + 2)
     @ (if xs \<noteq> [] then '','' else []) @ [LF] @ serialiseObject xs indent"

subsection \<open>The Lexer on the text in front of it\<close>

text \<open>\<open>rest l\<close> is the part of the source the Lexer has not read. \<open>fwd n l l'\<close>: the state \<open>l'\<close> is
  \<open>l\<close> after reading \<open>n\<close> characters; only the position and the two counters differ.\<close>

definition rest :: "Lexer \<Rightarrow> string" where
  "rest l = drop (current l) (source l)"

definition fwd :: "nat \<Rightarrow> Lexer \<Rightarrow> Lexer \<Rightarrow> bool" where
  "fwd n l l' = (\<exists>ln cn. l' = l\<lparr>current := current l + n, lineNum := ln, colNum := cn\<rparr>)"

lemma isAtEnd_rest: "isAtEnd l \<longleftrightarrow> rest l = []"
  by (simp add: isAtEnd_def rest_def)

lemma rest_Cons_nth: "rest l = c # cs \<Longrightarrow> source l ! current l = c \<and> current l < length (source l)"
  unfolding rest_def
  by (metis drop_eq_Nil2 hd_drop_conv_nth list.discI list.sel(1) not_le_imp_less)

lemma peek_rest: "peek l = (case rest l of [] \<Rightarrow> NUL | c # cs \<Rightarrow> c)"
proof (cases "rest l")
  case Nil
  then show ?thesis by (simp add: peek_def isAtEnd_rest)
next
  case (Cons c cs)
  then show ?thesis using rest_Cons_nth [OF Cons] by (simp add: peek_def isAtEnd_def)
qed

lemma peek_Nil [simp]: "rest l = [] \<Longrightarrow> peek l = NUL"
  by (simp add: peek_rest)

lemma peek_Cons [simp]: "rest l = c # cs \<Longrightarrow> peek l = c"
  by (simp add: peek_rest)

lemma rest_tl: "rest l = c # cs \<Longrightarrow> drop (Suc (current l)) (source l) = cs"
  unfolding rest_def by (metis drop_Suc list.sel(3) tl_drop)

lemma peekNext_Cons2 [simp]: "rest l = c # d # cs \<Longrightarrow> peekNext l = d"
proof -
  assume r: "rest l = c # d # cs"
  have "drop (Suc (current l)) (source l) = d # cs" using rest_tl [OF r] .
  then have "source l ! Suc (current l) = d \<and> Suc (current l) < length (source l)"
    by (metis drop_eq_Nil2 hd_drop_conv_nth list.discI list.sel(1) not_le_imp_less)
  then show ?thesis by (simp add: peekNext_def)
qed

lemma peekNext_single [simp]: "rest l = [c] \<Longrightarrow> peekNext l = NUL"
proof -
  assume r: "rest l = [c]"
  have "drop (Suc (current l)) (source l) = []" using rest_tl [OF r] .
  then show ?thesis by (simp add: peekNext_def)
qed

lemma peekNext_Nil [simp]: "rest l = [] \<Longrightarrow> peekNext l = NUL"
  by (simp add: peekNext_def rest_def)

lemma fwd_refl [simp]: "fwd 0 l l"
  unfolding fwd_def by (rule exI [of _ "lineNum l"], rule exI [of _ "colNum l"]) simp

lemma fwd_trans: "fwd n l l' \<Longrightarrow> fwd m l' l'' \<Longrightarrow> fwd (n + m) l l''"
  unfolding fwd_def by (fastforce simp: add.assoc)

lemma fwd_fields:
  assumes "fwd n l l'"
  shows "source l' = source l" "start l' = start l" "lineStart l' = lineStart l"
    "colStart l' = colStart l" "current l' = current l + n" "rest l' = drop n (rest l)"
  using assms by (auto simp: fwd_def rest_def add.commute)

lemma fwd_adv: "rest l = c # cs \<Longrightarrow> fwd 1 l (adv l)"
proof -
  assume r: "rest l = c # cs"
  then have "\<not> isAtEnd l" by (simp add: isAtEnd_rest)
  then have "adv l = l\<lparr>current := current l + 1, lineNum := lineNum l, colNum := colNum l + 1\<rparr>"
    by (simp add: adv_def Lexer_advance_def)
  then show ?thesis unfolding fwd_def by blast
qed

lemma rest_adv [simp]: "rest l = c # cs \<Longrightarrow> rest (adv l) = cs"
  using fwd_fields(6) [OF fwd_adv] by fastforce

lemma adv_at_end [simp]: "rest l = [] \<Longrightarrow> adv l = l"
  by (simp add: adv_def Lexer_advance_def isAtEnd_rest)

lemma fwd_newline [simp]: "fwd 0 l (newline l)"
  unfolding fwd_def newline_def
  by (rule exI [of _ "lineNum l + 1"], rule exI [of _ 1]) simp

lemma rest_newline [simp]: "rest (newline l) = rest l"
  by (simp add: rest_def newline_def)

lemma fst_Lexer_advance [simp]: "rest l = c # cs \<Longrightarrow> fst (Lexer_advance l) = c"
  using rest_Cons_nth [of l c cs] by (simp add: Lexer_advance_def isAtEnd_def)

text \<open>The loops over digits and letters read the longest run of them.\<close>

lemma fwd_skipDigits: "fwd (length (takeWhile isdigit (rest l))) l (skipDigits l)"
proof (induction l rule: skipDigits.induct)
  case (1 l)
  show ?case
  proof (cases "rest l")
    case Nil
    then have "skipDigits l = l" by (subst skipDigits.simps) (simp add: isdigit_def)
    then show ?thesis using Nil by simp
  next
    case (Cons c cs)
    show ?thesis
    proof (cases "isdigit c")
      case True
      then have e: "skipDigits l = skipDigits (adv l)"
        using Cons by (subst skipDigits.simps) simp
      have "fwd (length (takeWhile isdigit cs)) (adv l) (skipDigits (adv l))"
        using "1.IH" True Cons by simp
      then have "fwd (1 + length (takeWhile isdigit cs)) l (skipDigits (adv l))"
        using fwd_adv [OF Cons] by (rule fwd_trans [rotated])
      then show ?thesis using e True Cons by simp
    next
      case False
      then have "skipDigits l = l" using Cons by (subst skipDigits.simps) simp
      then show ?thesis using False Cons by simp
    qed
  qed
qed

lemma fwd_skipAlpha: "fwd (length (takeWhile isalpha (rest l))) l (skipAlpha l)"
proof (induction l rule: skipAlpha.induct)
  case (1 l)
  show ?case
  proof (cases "rest l")
    case Nil
    then have "skipAlpha l = l" by (subst skipAlpha.simps) (simp add: isalpha_def)
    then show ?thesis using Nil by simp
  next
    case (Cons c cs)
    show ?thesis
    proof (cases "isalpha c")
      case True
      then have e: "skipAlpha l = skipAlpha (adv l)"
        using Cons by (subst skipAlpha.simps) simp
      have "fwd (length (takeWhile isalpha cs)) (adv l) (skipAlpha (adv l))"
        using "1.IH" True Cons by simp
      then have "fwd (1 + length (takeWhile isalpha cs)) l (skipAlpha (adv l))"
        using fwd_adv [OF Cons] by (rule fwd_trans [rotated])
      then show ?thesis using e True Cons by simp
    next
      case False
      then have "skipAlpha l = l" using Cons by (subst skipAlpha.simps) simp
      then show ?thesis using False Cons by simp
    qed
  qed
qed

text \<open>
  What the loop of \<^verbatim>\<open>stringToken\<close> does on the text after an opening quote: \<open>closing_quote cs\<close> is
  the number of characters before the first quote that no backslash escapes, and \<open>None\<close> when
  the text ends before such a quote. A backslash hides the character after it.
\<close>

fun closing_quote :: "string \<Rightarrow> nat option" where
  "closing_quote [] = None"
| "closing_quote (c # cs) =
     (if c = DQ then Some 0
      else if c = BS then
        (case cs of [] \<Rightarrow> None | d # ds \<Rightarrow> map_option (\<lambda>n. n + 2) (closing_quote ds))
      else map_option Suc (closing_quote cs))"

lemma fwd_stringLoop:
  "fwd (case closing_quote (rest l) of Some n \<Rightarrow> n | None \<Rightarrow> length (rest l)) l (stringLoop l)"
proof (induction l rule: stringLoop.induct)
  case (1 l)
  let ?n = "\<lambda>l. case closing_quote (rest l) of Some n \<Rightarrow> n | None \<Rightarrow> length (rest l)"
  show ?case
  proof (cases "rest l")
    case Nil
    then have "stringLoop l = l" by (subst stringLoop.simps) (simp add: isAtEnd_rest)
    then show ?thesis using Nil by simp
  next
    case (Cons c cs)
    then have ne: "\<not> isAtEnd l" by (simp add: isAtEnd_rest)
    show ?thesis
    proof (cases "c = DQ")
      case True
      then have "stringLoop l = l" using Cons by (subst stringLoop.simps) simp
      then show ?thesis using True Cons by simp
    next
      case False
      define l1 where "l1 = (if peek l = LF then newline l else l)"
      define l2 where "l2 = (if peek l1 = BS then adv l1 else l1)"
      have r1: "rest l1 = c # cs" and f1: "fwd 0 l l1" using Cons by (simp_all add: l1_def)
      have e: "stringLoop l = stringLoop (adv l2)"
        unfolding l2_def l1_def using False Cons ne
        by (subst stringLoop.simps) (simp add: Let_def)
      have IH: "fwd (?n (adv l2)) (adv l2) (stringLoop (adv l2))"
        using "1.IH" [OF _ l1_def l2_def] False Cons ne by simp
      show ?thesis
      proof (cases "c = BS")
        case bs: True
        then have l2: "l2 = adv l1" using r1 by (simp add: l2_def)
        have f2: "fwd 1 l l2" using fwd_trans [OF f1 fwd_adv [OF r1]] l2 by simp
        have r2: "rest l2 = cs" using r1 l2 by simp
        show ?thesis
        proof (cases cs)
          case Nil
          then have "adv l2 = l2" using r2 by simp
          moreover have "stringLoop l2 = l2"
            using r2 Nil by (subst stringLoop.simps) (simp add: isAtEnd_rest)
          ultimately show ?thesis using e f2 Cons bs Nil False by simp
        next
          case (Cons d ds)
          have f3: "fwd 2 l (adv l2)"
            using fwd_trans [OF f2 fwd_adv [of l2 d ds]] r2 Cons by (simp add: numeral_2_eq_2)
          have r3: "rest (adv l2) = ds" using r2 Cons by simp
          have "fwd (2 + ?n (adv l2)) l (stringLoop (adv l2))"
            using fwd_trans [OF f3 IH] .
          moreover have "?n l = 2 + ?n (adv l2)"
            using \<open>rest l = c # cs\<close> Cons bs False r3 by (simp split: option.splits)
          ultimately show ?thesis using e by simp
        qed
      next
        case nbs: False
        then have l2: "l2 = l1" using r1 by (simp add: l2_def)
        have f3: "fwd 1 l (adv l2)" using fwd_trans [OF f1 fwd_adv [OF r1]] l2 by simp
        have r3: "rest (adv l2) = cs" using r1 l2 by simp
        have "fwd (1 + ?n (adv l2)) l (stringLoop (adv l2))"
          using fwd_trans [OF f3 IH] .
        moreover have "?n l = 1 + ?n (adv l2)"
          using Cons nbs False r3 by (simp split: option.splits)
        ultimately show ?thesis using e by simp
      qed
    qed
  qed
qed

lemma closing_quote_clean:
  "DQ \<notin> set s \<Longrightarrow> BS \<notin> set s \<Longrightarrow> closing_quote (s @ DQ # r) = Some (length s)"
  by (induction s) auto

lemma closing_quote_bound: "closing_quote cs = Some n \<Longrightarrow> n < length cs \<and> cs ! n = DQ"
proof (induction cs arbitrary: n rule: closing_quote.induct)
  case 1
  then show ?case by simp
next
  case (2 c cs)
  show ?case
  proof (cases "c = DQ")
    case True
    then show ?thesis using "2.prems" by simp
  next
    case False
    show ?thesis
    proof (cases "c = BS")
      case True
      then obtain d ds m where cs: "cs = d # ds" and m: "closing_quote ds = Some m" "n = m + 2"
        using "2.prems" False by (auto split: list.splits)
      then have "m < length ds \<and> ds ! m = DQ" using "2.IH"(1) False True by simp
      then show ?thesis using cs m by simp
    next
      case nbs: False
      then obtain m where m: "closing_quote cs = Some m" "n = Suc m"
        using "2.prems" False by auto
      then have "m < length cs \<and> cs ! m = DQ" using "2.IH"(2) False nbs by simp
      then show ?thesis using m by simp
    qed
  qed
qed

text \<open>White space: \<open>is_ws\<close> are the four characters of the first two \<^verbatim>\<open>case\<close> groups of
  \<^verbatim>\<open>skipWhitespaceAndComments\<close>.\<close>

definition is_ws :: "char \<Rightarrow> bool" where
  "is_ws c = (c = CHR '' '' \<or> c = CR \<or> c = TAB \<or> c = LF)"

lemma skipWhitespaceAndComments_stop:
  assumes "rest l = [] \<or> (\<not> is_ws (hd (rest l)) \<and> hd (rest l) \<noteq> CHR ''/'')"
  shows "skipWhitespaceAndComments l = l"
proof (cases "rest l")
  case Nil
  then show ?thesis by (subst skipWhitespaceAndComments.simps) (simp add: Let_def)
next
  case (Cons c cs)
  then show ?thesis
    using assms by (subst skipWhitespaceAndComments.simps) (simp add: Let_def is_ws_def)
qed

lemma fwd_skipWhitespace:
  assumes "rest l = ws @ r" "list_all is_ws ws"
    "r = [] \<or> (\<not> is_ws (hd r) \<and> hd r \<noteq> CHR ''/'')"
  shows "fwd (length ws) l (skipWhitespaceAndComments l)"
  using assms
proof (induction ws arbitrary: l)
  case Nil
  then show ?case using skipWhitespaceAndComments_stop [of l] by simp
next
  case (Cons w ws)
  then have r: "rest l = w # (ws @ r)" and w: "is_ws w" and ws: "list_all is_ws ws" by simp_all
  have ra: "rest (adv l) = ws @ r" using r by simp
  show ?case
  proof (cases "w = LF")
    case True
    have e: "skipWhitespaceAndComments l = skipWhitespaceAndComments (newline (adv l))"
      using r True by (subst skipWhitespaceAndComments.simps) (simp add: Let_def)
    have "fwd 1 l (newline (adv l))"
      using fwd_trans [OF fwd_adv [OF r] fwd_newline [of "adv l"]] by simp
    moreover have "fwd (length ws) (newline (adv l)) (skipWhitespaceAndComments (newline (adv l)))"
      using Cons.IH [of "newline (adv l)"] ra ws Cons.prems(3) by simp
    ultimately have "fwd (1 + length ws) l (skipWhitespaceAndComments (newline (adv l)))"
      by (rule fwd_trans)
    then show ?thesis using e by simp
  next
    case False
    have e: "skipWhitespaceAndComments l = skipWhitespaceAndComments (adv l)"
      using r False w by (subst skipWhitespaceAndComments.simps) (auto simp: Let_def is_ws_def)
    have "fwd (length ws) (adv l) (skipWhitespaceAndComments (adv l))"
      using Cons.IH [of "adv l"] ra ws Cons.prems(3) by simp
    then have "fwd (1 + length ws) l (skipWhitespaceAndComments (adv l))"
      using fwd_adv [OF r] by (rule fwd_trans [rotated])
    then show ?thesis using e by simp
  qed
qed

subsection \<open>The tokens \<^verbatim>\<open>nextToken\<close> returns\<close>

text \<open>\<open>mark\<close> is lines 343-345 of \<^verbatim>\<open>nextToken\<close>, and \<open>scanToken\<close> the rest of its body.\<close>

definition mark :: "Lexer \<Rightarrow> Lexer" where
  "mark l = l\<lparr>start := current l, lineStart := lineNum l, colStart := colNum l\<rparr>"

definition scanToken :: "Lexer \<Rightarrow> Token \<times> Lexer" where
  "scanToken l1 =
     (if isAtEnd l1 then (makeToken l1 EndOfFile, l1)
      else (let c = fst (Lexer_advance l1); l2 = adv l1 in
        if c = CHR ''{'' then (makeToken l2 LeftBrace, l2)
        else if c = CHR ''}'' then (makeToken l2 RightBrace, l2)
        else if c = CHR ''['' then (makeToken l2 LeftBracket, l2)
        else if c = CHR '']'' then (makeToken l2 RightBracket, l2)
        else if c = CHR '','' then (makeToken l2 Comma, l2)
        else if c = CHR '':'' then (makeToken l2 Colon, l2)
        else if c = DQ then stringToken l2
        else if isdigit c \<or> c = CHR ''-'' then numberToken l2
        else if isalpha c then identifierToken l2
        else (makeToken l2 Unknown, l2)))"

lemma nextToken_scanToken: "nextToken l = scanToken (mark (skipWhitespaceAndComments l))"
  by (simp add: nextToken_def scanToken_def mark_def Let_def)

lemma mark_fields [simp]:
  "rest (mark l) = rest l" "source (mark l) = source l" "current (mark l) = current l"
  "start (mark l) = current l" "lineStart (mark l) = lineNum l" "colStart (mark l) = colNum l"
  by (simp_all add: mark_def rest_def)

text \<open>A token made after reading \<open>n\<close> characters from the mark has these characters as its
  lexeme, and the line and column of the mark.\<close>

lemma makeToken_fwd:
  assumes "fwd n (mark l0) l2"
  shows "makeToken l2 ty = \<lparr>type = ty, lexeme = take n (rest l0), line = lineNum l0, col = colNum l0\<rparr>"
  using fwd_fields [OF assms] by (simp add: makeToken_def rest_def)

lemma scanToken_EndOfFile:
  assumes "rest l0 = []"
  shows "scanToken (mark l0)
    = (\<lparr>type = EndOfFile, lexeme = [], line = lineNum l0, col = colNum l0\<rparr>, mark l0)"
  using assms makeToken_fwd [OF fwd_refl, of l0 EndOfFile]
  by (simp add: scanToken_def isAtEnd_rest)

lemma scanToken_single:
  assumes "rest l0 = c # cs"
    and "(c, ty) \<in> set [(CHR ''{'', LeftBrace), (CHR ''}'', RightBrace), (CHR ''['', LeftBracket),
           (CHR '']'', RightBracket), (CHR '','', Comma), (CHR '':'', Colon)]"
  shows "scanToken (mark l0)
    = (\<lparr>type = ty, lexeme = [c], line = lineNum l0, col = colNum l0\<rparr>, adv (mark l0))"
proof -
  have r: "rest (mark l0) = c # cs" using assms(1) by simp
  have "makeToken (adv (mark l0)) ty
      = \<lparr>type = ty, lexeme = take 1 (rest l0), line = lineNum l0, col = colNum l0\<rparr>"
    by (rule makeToken_fwd [OF fwd_adv [OF r]])
  then show ?thesis
    using assms r by (auto simp: scanToken_def isAtEnd_rest Let_def)
qed

lemma scanToken_Unknown_char:
  assumes "rest l0 = c # cs"
    and "c \<notin> set ''{}[],:''" "c \<noteq> DQ" "\<not> isdigit c" "c \<noteq> CHR ''-''" "\<not> isalpha c"
  shows "scanToken (mark l0)
    = (\<lparr>type = Unknown, lexeme = [c], line = lineNum l0, col = colNum l0\<rparr>, adv (mark l0))"
proof -
  have r: "rest (mark l0) = c # cs" using assms(1) by simp
  have "makeToken (adv (mark l0)) Unknown
      = \<lparr>type = Unknown, lexeme = take 1 (rest l0), line = lineNum l0, col = colNum l0\<rparr>"
    by (rule makeToken_fwd [OF fwd_adv [OF r]])
  then show ?thesis
    using assms r by (auto simp: scanToken_def isAtEnd_rest Let_def)
qed

text \<open>A string literal: closed, or open at the end of the input.\<close>

lemma scanToken_String:
  assumes "rest l0 = DQ # cs" "closing_quote cs = Some n"
  shows "\<exists>l'. scanToken (mark l0)
      = (\<lparr>type = String, lexeme = DQ # take n cs @ [DQ], line = lineNum l0, col = colNum l0\<rparr>, l')
    \<and> source l' = source l0 \<and> rest l' = drop (Suc n) cs"
proof -
  have r: "rest (mark l0) = DQ # cs" using assms(1) by simp
  define l2 where "l2 = adv (mark l0)"
  define l3 where "l3 = stringLoop l2"
  have f2: "fwd 1 (mark l0) l2" unfolding l2_def by (rule fwd_adv [OF r])
  have r2: "rest l2 = cs" unfolding l2_def using r by simp
  have f3: "fwd n l2 l3"
    unfolding l3_def using fwd_stringLoop [of l2] r2 assms(2) by simp
  have nb: "n < length cs" "cs ! n = DQ" using closing_quote_bound [OF assms(2)] by simp_all
  have r3: "rest l3 = DQ # drop (Suc n) cs"
    using fwd_fields(6) [OF f3] r2 nb Cons_nth_drop_Suc [of n cs] by simp
  have f4: "fwd 1 l3 (adv l3)" by (rule fwd_adv [OF r3])
  have f: "fwd (n + 2) (mark l0) (adv l3)"
    using fwd_trans [OF fwd_trans [OF f2 f3] f4] by (simp add: add.commute)
  have lx: "take (n + 2) (rest l0) = DQ # take n cs @ [DQ]"
    using assms(1) nb by (simp add: take_Suc_conv_app_nth)
  have tok: "makeToken (adv l3) String
      = \<lparr>type = String, lexeme = DQ # take n cs @ [DQ], line = lineNum l0, col = colNum l0\<rparr>"
    using makeToken_fwd [OF f, of String] lx by simp
  have "stringToken l2 = (makeToken (adv l3) String, adv l3)"
    using r3 by (simp add: stringToken_def Let_def l3_def isAtEnd_rest)
  then have "scanToken (mark l0) = (makeToken (adv l3) String, adv l3)"
    using r by (simp add: scanToken_def isAtEnd_rest Let_def l2_def)
  moreover have "source (adv l3) = source l0" using fwd_fields(1) [OF f] by simp
  moreover have "rest (adv l3) = drop (Suc n) cs" using r3 by simp
  ultimately show ?thesis using tok by simp
qed

lemma scanToken_unterminated:
  assumes "rest l0 = DQ # cs" "closing_quote cs = None"
  shows "\<exists>l'. scanToken (mark l0)
      = (\<lparr>type = Unknown, lexeme = ''Unterminated string.'',
           line = lineNum l0, col = colNum l0\<rparr>, l')
    \<and> source l' = source l0 \<and> rest l' = []"
proof -
  have r: "rest (mark l0) = DQ # cs" using assms(1) by simp
  define l2 where "l2 = adv (mark l0)"
  define l3 where "l3 = stringLoop l2"
  have f2: "fwd 1 (mark l0) l2" unfolding l2_def by (rule fwd_adv [OF r])
  have r2: "rest l2 = cs" unfolding l2_def using r by simp
  have f3: "fwd (length cs) l2 l3"
    unfolding l3_def using fwd_stringLoop [of l2] r2 assms(2) by simp
  have r3: "rest l3 = []" using fwd_fields(6) [OF f3] r2 by simp
  have fl: "lineStart l3 = lineNum l0" "colStart l3 = colNum l0" "source l3 = source l0"
    using fwd_fields [OF f3] fwd_fields [OF f2] by simp_all
  have "stringToken l2 = (\<lparr>type = Unknown, lexeme = ''Unterminated string.'',
           line = lineNum l0, col = colNum l0\<rparr>, l3)"
    using r3 fl by (simp add: stringToken_def Let_def l3_def [symmetric] isAtEnd_rest)
  then have "scanToken (mark l0) = (\<lparr>type = Unknown, lexeme = ''Unterminated string.'',
           line = lineNum l0, col = colNum l0\<rparr>, l3)"
    using r by (simp add: scanToken_def isAtEnd_rest Let_def l2_def)
  then show ?thesis using r3 fl by simp
qed

text \<open>Digits and letters by their byte values.\<close>

lemma isdigit_nat: "isdigit c \<longleftrightarrow> 48 \<le> (of_char c :: nat) \<and> (of_char c :: nat) \<le> 57"
  by (simp add: isdigit_def less_eq_char_def)

lemma isalpha_nat:
  "isalpha c \<longleftrightarrow> (97 \<le> (of_char c :: nat) \<and> (of_char c :: nat) \<le> 122)
     \<or> (65 \<le> (of_char c :: nat) \<and> (of_char c :: nat) \<le> 90)"
  by (simp add: isalpha_def less_eq_char_def)

lemma isalpha_other:
  "isalpha c \<Longrightarrow> c \<notin> set ''{}[],:'' \<and> c \<noteq> DQ \<and> \<not> isdigit c \<and> c \<noteq> CHR ''-''
     \<and> \<not> is_ws c \<and> c \<noteq> CHR ''/'' \<and> c \<noteq> NUL"
  by (auto simp: isalpha_nat isdigit_nat is_ws_def)

lemma isdigit_other:
  "isdigit c \<Longrightarrow> c \<notin> set ''{}[],:'' \<and> c \<noteq> DQ \<and> \<not> isalpha c \<and> c \<noteq> CHR ''-''
     \<and> \<not> is_ws c \<and> c \<noteq> CHR ''/'' \<and> c \<noteq> NUL \<and> c \<noteq> CHR ''.'' \<and> c \<noteq> CHR ''+''"
  by (auto simp: isalpha_nat isdigit_nat is_ws_def)

lemma takeWhile_run:
  "list_all P xs \<Longrightarrow> r = [] \<or> \<not> P (hd r) \<Longrightarrow> takeWhile P (xs @ r) = xs"
  by (induction xs) (auto simp: takeWhile_eq_Nil_iff neq_Nil_conv)

lemma fwd_skipDigits_run:
  assumes "rest l = ds @ r" "list_all isdigit ds" "r = [] \<or> \<not> isdigit (hd r)"
  shows "fwd (length ds) l (skipDigits l)" "rest (skipDigits l) = r"
proof -
  show f: "fwd (length ds) l (skipDigits l)"
    using fwd_skipDigits [of l] takeWhile_run [OF assms(2, 3)] assms(1) by simp
  show "rest (skipDigits l) = r" using fwd_fields(6) [OF f] assms(1) by simp
qed

text \<open>An identifier: a letter and the letters after it.\<close>

lemma scanToken_identifier:
  assumes "rest l0 = c # cs" "isalpha c"
  defines "w \<equiv> c # takeWhile isalpha cs"
  shows "\<exists>l'. scanToken (mark l0)
      = (\<lparr>type = (if w = ''true'' then TrueTok else if w = ''false'' then FalseTok
                  else if w = ''null'' then NullTok else Unknown),
           lexeme = w, line = lineNum l0, col = colNum l0\<rparr>, l')
    \<and> source l' = source l0 \<and> rest l' = dropWhile isalpha cs"
proof -
  have r: "rest (mark l0) = c # cs" using assms(1) by simp
  define l2 where "l2 = adv (mark l0)"
  define l3 where "l3 = skipAlpha l2"
  have f2: "fwd 1 (mark l0) l2" unfolding l2_def by (rule fwd_adv [OF r])
  have r2: "rest l2 = cs" unfolding l2_def using r by simp
  have f3: "fwd (length (takeWhile isalpha cs)) l2 l3"
    unfolding l3_def using fwd_skipAlpha [of l2] r2 by simp
  have f: "fwd (Suc (length (takeWhile isalpha cs))) (mark l0) l3"
    using fwd_trans [OF f2 f3] by simp
  have tx: "take (Suc (length (takeWhile isalpha cs))) (rest l0) = w"
    using assms(1) by (simp add: w_def takeWhile_eq_take [symmetric])
  have tok: "makeToken l3 ty = \<lparr>type = ty, lexeme = w, line = lineNum l0, col = colNum l0\<rparr>" for ty
    using makeToken_fwd [OF f, of ty] tx by simp
  have tx2: "take (current l3 - start l3) (drop (start l3) (source l3)) = w"
    using tok [of Unknown] by (simp add: makeToken_def)
  have "identifierToken l2
      = (makeToken l3 (if w = ''true'' then TrueTok else if w = ''false'' then FalseTok
                       else if w = ''null'' then NullTok else Unknown), l3)"
    using tx2 by (simp add: identifierToken_def Let_def l3_def [symmetric])
  then have "scanToken (mark l0)
      = (makeToken l3 (if w = ''true'' then TrueTok else if w = ''false'' then FalseTok
                       else if w = ''null'' then NullTok else Unknown), l3)"
    using r assms(2) isalpha_other [OF assms(2)]
    by (simp add: scanToken_def isAtEnd_rest Let_def l2_def)
  moreover have "source l3 = source l0" using fwd_fields(1) [OF f] by simp
  moreover have "rest l3 = dropWhile isalpha cs"
    using fwd_fields(6) [OF f3] r2 by (simp add: dropWhile_eq_drop)
  ultimately show ?thesis using tok by simp
qed

text \<open>
  A number: after its first character (a digit or \<^verbatim>\<open>-\<close>) the digits \<open>ip\<close>, then a fraction
  \<open>fp\<close> (empty, or a point and at least one digit), then an exponent \<open>ex\<close> (empty, or \<^verbatim>\<open>e\<close>
  or \<^verbatim>\<open>E\<close>, a sign or none, and at least one digit), in front of text that cannot continue the
  number.
\<close>

definition fraction_part :: "string \<Rightarrow> bool" where
  "fraction_part fp = (fp = [] \<or> (\<exists>fd. fp = CHR ''.'' # fd \<and> fd \<noteq> [] \<and> list_all isdigit fd))"

definition exponent_part :: "string \<Rightarrow> bool" where
  "exponent_part ex =
     (ex = [] \<or> (\<exists>e sg ed. ex = e # sg @ ed \<and> (e = CHR ''e'' \<or> e = CHR ''E'')
                   \<and> (sg = [] \<or> sg = ''+'' \<or> sg = ''-'') \<and> ed \<noteq> [] \<and> list_all isdigit ed))"

lemma exponent_partI:
  "e = CHR ''e'' \<or> e = CHR ''E'' \<Longrightarrow> sg = [] \<or> sg = ''+'' \<or> sg = ''-'' \<Longrightarrow> ed \<noteq> [] \<Longrightarrow>
     list_all isdigit ed \<Longrightarrow> exponent_part (e # sg @ ed)"
  unfolding exponent_part_def by blast

definition delimited :: "string \<Rightarrow> bool" where
  "delimited r = (r = [] \<or> (\<not> isdigit (hd r) \<and> \<not> isalpha (hd r) \<and> hd r \<noteq> CHR ''.''))"

lemma scanToken_Number:
  assumes r0: "rest l0 = c # ip @ fp @ ex @ r"
    and c: "isdigit c \<or> c = CHR ''-''"
    and ip: "list_all isdigit ip" and fp: "fraction_part fp" and ex: "exponent_part ex"
    and r: "delimited r"
  shows "\<exists>l'. scanToken (mark l0)
      = (\<lparr>type = Number, lexeme = c # ip @ fp @ ex, line = lineNum l0, col = colNum l0\<rparr>, l')
    \<and> source l' = source l0 \<and> rest l' = r"
proof -
  have rm: "rest (mark l0) = c # ip @ fp @ ex @ r" using r0 by simp
  define l2 where "l2 = adv (mark l0)"
  have f2: "fwd 1 (mark l0) l2" unfolding l2_def by (rule fwd_adv [OF rm])
  have r2: "rest l2 = ip @ (fp @ ex @ r)" unfolding l2_def using rm by simp
  have hd_r: "r = [] \<or> (\<not> isdigit (hd r) \<and> hd r \<noteq> CHR ''.'' \<and> hd r \<noteq> CHR ''e'' \<and> hd r \<noteq> CHR ''E'')"
    using r by (auto simp: delimited_def isalpha_nat)
  have nd: "\<not> isdigit (CHR ''.'')" "\<not> isdigit (CHR ''e'')" "\<not> isdigit (CHR ''E'')"
    "\<not> isdigit NUL"
    by (simp_all add: isdigit_nat)
  \<comment> \<open>the digits before the point\<close>
  define l3 where "l3 = skipDigits l2"
  have stop1: "fp @ ex @ r = [] \<or> \<not> isdigit (hd (fp @ ex @ r))"
    using fp ex hd_r nd by (auto simp: fraction_part_def exponent_part_def)
  have f3: "fwd (length ip) l2 l3" and r3: "rest l3 = fp @ ex @ r"
    unfolding l3_def using fwd_skipDigits_run [OF r2 ip stop1] by simp_all
  \<comment> \<open>the fraction\<close>
  define l4 where
    "l4 = (if peek l3 = CHR ''.'' \<and> isdigit (peekNext l3) then skipDigits (adv l3) else l3)"
  have stop2: "ex @ r = [] \<or> \<not> isdigit (hd (ex @ r))"
    using ex hd_r nd by (auto simp: exponent_part_def)
  have "fwd (length fp) l3 l4 \<and> rest l4 = ex @ r"
  proof (cases "fp = []")
    case True
    have "peek l3 \<noteq> CHR ''.''"
    proof (cases "ex @ r")
      case Nil
      then show ?thesis using r3 True by simp
    next
      case (Cons d ds)
      then have "d \<noteq> CHR ''.''"
        using ex hd_r by (cases ex) (auto simp: exponent_part_def)
      then show ?thesis using r3 True Cons by simp
    qed
    then show ?thesis using True r3 by (simp add: l4_def)
  next
    case False
    then obtain fd where fd: "fp = CHR ''.'' # fd" "fd \<noteq> []" "list_all isdigit fd"
      using fp by (auto simp: fraction_part_def)
    then obtain d fd' where d: "fd = d # fd'" "isdigit d" by (cases fd) auto
    have r3': "rest l3 = CHR ''.'' # d # (fd' @ ex @ r)" using r3 fd d by simp
    have l4: "l4 = skipDigits (adv l3)" using r3' d by (simp add: l4_def)
    have ra: "rest (adv l3) = fd @ (ex @ r)" using r3' d by simp
    have "fwd (length fd) (adv l3) l4" "rest l4 = ex @ r"
      unfolding l4 using fwd_skipDigits_run [OF ra fd(3) stop2] by simp_all
    then show ?thesis
      using fwd_trans [OF fwd_adv [OF r3'], of "length fd" l4] fd by simp
  qed
  then have f4: "fwd (length fp) l3 l4" and r4: "rest l4 = ex @ r" by simp_all
  \<comment> \<open>the exponent\<close>
  define l5 where
    "l5 = (if peek l4 = CHR ''e'' \<or> peek l4 = CHR ''E'' then
             (let a = adv l4;
                  b = (if peek a = CHR ''+'' \<or> peek a = CHR ''-'' then adv a else a)
              in skipDigits b)
           else l4)"
  have stop3: "r = [] \<or> \<not> isdigit (hd r)" using hd_r by auto
  have "fwd (length ex) l4 l5 \<and> rest l5 = r"
  proof (cases "ex = []")
    case True
    have "peek l4 \<noteq> CHR ''e'' \<and> peek l4 \<noteq> CHR ''E''"
      using r4 True hd_r by (cases r) auto
    then show ?thesis using True r4 by (simp add: l5_def)
  next
    case False
    then obtain e sg ed where e: "ex = e # sg @ ed" "e = CHR ''e'' \<or> e = CHR ''E''"
        "sg = [] \<or> sg = ''+'' \<or> sg = ''-''" "ed \<noteq> []" "list_all isdigit ed"
      using ex by (auto simp: exponent_part_def)
    have r4': "rest l4 = e # (sg @ ed @ r)" using r4 e(1) by simp
    have pe: "peek l4 = CHR ''e'' \<or> peek l4 = CHR ''E''" using r4' e(2) by simp
    have ra: "rest (adv l4) = sg @ ed @ r" using r4' by simp
    define b where
      "b = (if peek (adv l4) = CHR ''+'' \<or> peek (adv l4) = CHR ''-'' then adv (adv l4) else adv l4)"
    have "fwd (length sg) (adv l4) b \<and> rest b = ed @ r"
    proof (cases "sg = []")
      case True
      obtain d ed' where d: "ed = d # ed'" "isdigit d" using e(4, 5) by (cases ed) auto
      have "rest (adv l4) = d # (ed' @ r)" using ra True d(1) by simp
      then have "peek (adv l4) = d" by simp
      then have "b = adv l4" using isdigit_other [OF d(2)] by (simp add: b_def)
      then show ?thesis using ra True by simp
    next
      case ns: False
      then obtain s where s: "sg = [s]" "s = CHR ''+'' \<or> s = CHR ''-''" using e(3) by auto
      have ra': "rest (adv l4) = s # (ed @ r)" using ra s(1) by simp
      then have "peek (adv l4) = s" by simp
      then have "b = adv (adv l4)" using s(2) by (auto simp: b_def)
      then show ?thesis using fwd_adv [OF ra'] ra' s(1) by simp
    qed
    then have fb: "fwd (length sg) (adv l4) b" and rb: "rest b = ed @ r" by simp_all
    have l5: "l5 = skipDigits b"
      using pe by (simp add: l5_def Let_def b_def)
    have f6: "fwd (length ed) b l5" "rest l5 = r"
      unfolding l5 using fwd_skipDigits_run [OF rb e(5) stop3] by simp_all
    have "fwd (1 + length sg + length ed) l4 l5"
      using fwd_trans [OF fwd_trans [OF fwd_adv [OF r4'] fb] f6(1)] .
    then show ?thesis using f6(2) e(1) by simp
  qed
  then have f5: "fwd (length ex) l4 l5" and r5: "rest l5 = r" by simp_all
  have f: "fwd (Suc (length ip + length fp + length ex)) (mark l0) l5"
    using fwd_trans [OF fwd_trans [OF fwd_trans [OF f2 f3] f4] f5] by simp
  have "take (Suc (length ip + length fp + length ex)) (rest l0) = c # ip @ fp @ ex"
    using r0 by simp
  then have tok: "makeToken l5 Number
      = \<lparr>type = Number, lexeme = c # ip @ fp @ ex, line = lineNum l0, col = colNum l0\<rparr>"
    using makeToken_fwd [OF f, of Number] by simp
  have "numberToken l2 = (makeToken l5 Number, l5)"
    by (simp only: numberToken_def Let_def l3_def l4_def l5_def)
  moreover have "c \<notin> set ''{}[],:'' \<and> c \<noteq> DQ"
    using c isdigit_other [of c] by auto
  ultimately have "scanToken (mark l0) = (makeToken l5 Number, l5)"
    using rm c by (simp add: scanToken_def isAtEnd_rest Let_def l2_def)
  moreover have "source l5 = source l0" using fwd_fields(1) [OF f] by simp
  ultimately show ?thesis using tok r5 by simp
qed

subsection \<open>\<^verbatim>\<open>Parser::advance\<close> on the text in front of the Lexer\<close>

lemma nextToken_at:
  assumes "rest l = ws @ r0" "list_all is_ws ws"
    "r0 = [] \<or> (\<not> is_ws (hd r0) \<and> hd r0 \<noteq> CHR ''/'')"
  shows "\<exists>l0. rest l0 = r0 \<and> source l0 = source l \<and> nextToken l = scanToken (mark l0)"
proof -
  have f: "fwd (length ws) l (skipWhitespaceAndComments l)"
    by (rule fwd_skipWhitespace [OF assms])
  show ?thesis
    using fwd_fields(1, 6) [OF f] assms(1) nextToken_scanToken [of l] by auto
qed

text \<open>\<open>advances q ty lx r p\<close>: from the state \<open>q\<close>, \<^verbatim>\<open>advance\<close> succeeds with the state \<open>p\<close>, whose
  current token has the type \<open>ty\<close> and the lexeme \<open>lx\<close>, and whose Lexer stands in front of \<open>r\<close>.\<close>

definition advances :: "Parser \<Rightarrow> TokenType \<Rightarrow> string \<Rightarrow> string \<Rightarrow> Parser \<Rightarrow> bool" where
  "advances q ty lx r p =
     (Parser_advance q = Inr p \<and> type (currentToken p) = ty \<and> lexeme (currentToken p) = lx
      \<and> rest (lexer p) = r \<and> source (lexer p) = source (lexer q))"

lemma advancesI:
  assumes "nextToken (lexer q) = (\<lparr>type = ty, lexeme = lx, line = lnum, col = cnum\<rparr>, l')"
    "ty \<noteq> Unknown" "rest l' = r" "source l' = source (lexer q)"
  shows "\<exists>p. advances q ty lx r p"
  using assms by (simp add: advances_def Parser_advance_def)

lemma advances_single:
  assumes "rest (lexer q) = ws @ c # r" "list_all is_ws ws"
    and "(c, ty) \<in> set [(CHR ''{'', LeftBrace), (CHR ''}'', RightBrace), (CHR ''['', LeftBracket),
           (CHR '']'', RightBracket), (CHR '','', Comma), (CHR '':'', Colon)]"
  shows "\<exists>p. advances q ty [c] r p"
proof -
  have "\<not> is_ws c \<and> c \<noteq> CHR ''/''" using assms(3) by (auto simp: is_ws_def)
  then obtain l0 where l0: "rest l0 = c # r" "source l0 = source (lexer q)"
      "nextToken (lexer q) = scanToken (mark l0)"
    using nextToken_at [OF assms(1, 2)] by auto
  have ty: "ty \<noteq> Unknown" using assms(3) by auto
  have a: "nextToken (lexer q)
      = (\<lparr>type = ty, lexeme = [c], line = lineNum l0, col = colNum l0\<rparr>, adv (mark l0))"
    using scanToken_single [OF l0(1) assms(3)] l0(3) by simp
  have b: "rest (adv (mark l0)) = r" using l0(1) by simp
  have c: "source (adv (mark l0)) = source (lexer q)" using l0(2) by simp
  show ?thesis by (rule advancesI [OF a ty b c])
qed

lemma advances_String:
  assumes "rest (lexer q) = ws @ DQ # cs" "list_all is_ws ws" "closing_quote cs = Some n"
  shows "\<exists>p. advances q String (DQ # take n cs @ [DQ]) (drop (Suc n) cs) p"
proof -
  have "\<not> is_ws DQ \<and> DQ \<noteq> CHR ''/''" by (simp add: is_ws_def)
  then obtain l0 where l0: "rest l0 = DQ # cs" "source l0 = source (lexer q)"
      "nextToken (lexer q) = scanToken (mark l0)"
    using nextToken_at [OF assms(1, 2)] by auto
  obtain l' where l': "scanToken (mark l0)
      = (\<lparr>type = String, lexeme = DQ # take n cs @ [DQ], line = lineNum l0, col = colNum l0\<rparr>, l')"
      "source l' = source l0" "rest l' = drop (Suc n) cs"
    using scanToken_String [OF l0(1) assms(3)] by blast
  show ?thesis
    by (rule advancesI [OF trans [OF l0(3) l'(1)] _ l'(3) trans [OF l'(2) l0(2)]]) simp
qed

lemma advances_String_clean:
  assumes "rest (lexer q) = ws @ DQ # s @ DQ # r" "list_all is_ws ws" "DQ \<notin> set s" "BS \<notin> set s"
  shows "\<exists>p. advances q String (DQ # s @ [DQ]) r p"
proof -
  have cq: "closing_quote (s @ DQ # r) = Some (length s)"
    by (rule closing_quote_clean [OF assms(3, 4)])
  have r: "rest (lexer q) = ws @ DQ # (s @ DQ # r)" using assms(1) by simp
  show ?thesis using advances_String [OF r assms(2) cq] by simp
qed

lemma advances_Number:
  assumes "rest (lexer q) = ws @ c # ip @ fp @ ex @ r" "list_all is_ws ws"
    and "isdigit c \<or> c = CHR ''-''"
    and "list_all isdigit ip" "fraction_part fp" "exponent_part ex" "delimited r"
  shows "\<exists>p. advances q Number (c # ip @ fp @ ex) r p"
proof -
  have "\<not> is_ws c \<and> c \<noteq> CHR ''/''"
  proof (cases "isdigit c")
    case True
    then show ?thesis using isdigit_other [OF True] by simp
  next
    case False
    then have "c = CHR ''-''" using assms(3) by simp
    then show ?thesis by (simp add: is_ws_def)
  qed
  then have "c # ip @ fp @ ex @ r = [] \<or> (\<not> is_ws (hd (c # ip @ fp @ ex @ r))
      \<and> hd (c # ip @ fp @ ex @ r) \<noteq> CHR ''/'')" by simp
  from nextToken_at [OF assms(1, 2) this]
  obtain l0 where l0: "rest l0 = c # ip @ fp @ ex @ r" "source l0 = source (lexer q)"
      "nextToken (lexer q) = scanToken (mark l0)"
    by blast
  obtain l' where l': "scanToken (mark l0)
      = (\<lparr>type = Number, lexeme = c # ip @ fp @ ex, line = lineNum l0, col = colNum l0\<rparr>, l')"
      "source l' = source l0" "rest l' = r"
    using scanToken_Number [OF l0(1) assms(3-7)] by blast
  show ?thesis
    by (rule advancesI [OF trans [OF l0(3) l'(1)] _ l'(3) trans [OF l'(2) l0(2)]]) simp
qed

lemma advances_keyword:
  assumes "rest (lexer q) = ws @ w @ r" "list_all is_ws ws"
    and "(w, ty) \<in> set [(''true'', TrueTok), (''false'', FalseTok), (''null'', NullTok)]"
    and "r = [] \<or> \<not> isalpha (hd r)"
  shows "\<exists>p. advances q ty w r p"
proof -
  have "w = ''true'' \<or> w = ''false'' \<or> w = ''null''" using assms(3) by auto
  then have "w = hd w # tl w \<and> isalpha (hd w) \<and> list_all isalpha (tl w)"
    by (elim disjE) (simp_all add: isalpha_nat)
  then obtain c cs where w: "w = c # cs" "isalpha c" "list_all isalpha cs"
    by blast
  have "\<not> is_ws c \<and> c \<noteq> CHR ''/''" using isalpha_other [OF w(2)] by simp
  then obtain l0 where l0: "rest l0 = c # (cs @ r)" "source l0 = source (lexer q)"
      "nextToken (lexer q) = scanToken (mark l0)"
    using nextToken_at [OF _ assms(2), of "lexer q" "c # cs @ r"] assms(1) w(1) by auto
  have tw: "takeWhile isalpha (cs @ r) = cs" by (rule takeWhile_run [OF w(3) assms(4)])
  then have dw: "dropWhile isalpha (cs @ r) = r"
    by (metis append_eq_conv_conj dropWhile_eq_drop)
  have ty: "(if w = ''true'' then TrueTok else if w = ''false'' then FalseTok
                  else if w = ''null'' then NullTok else Unknown) = ty"
    using assms(3) by auto
  obtain l' where l': "scanToken (mark l0)
      = (\<lparr>type = ty, lexeme = w, line = lineNum l0, col = colNum l0\<rparr>, l')"
      "source l' = source l0" "rest l' = r"
    using scanToken_identifier [OF l0(1) w(2)] unfolding tw dw w(1) [symmetric] ty by blast
  have "ty \<noteq> Unknown" using assms(3) by auto
  then show ?thesis
    by (rule advancesI [OF trans [OF l0(3) l'(1)] _ l'(3) trans [OF l'(2) l0(2)]])
qed

lemma advances_EndOfFile:
  assumes "rest (lexer q) = ws" "list_all is_ws ws"
  shows "\<exists>p. advances q EndOfFile [] [] p"
proof -
  obtain l0 where l0: "rest l0 = []" "source l0 = source (lexer q)"
      "nextToken (lexer q) = scanToken (mark l0)"
    using nextToken_at [of "lexer q" ws "[]"] assms by auto
  have "rest (mark l0) = []" "source (mark l0) = source (lexer q)" using l0 by simp_all
  then show ?thesis
    by (intro advancesI [OF trans [OF l0(3) scanToken_EndOfFile [OF l0(1)]]]) simp_all
qed

text \<open>The two ways \<^verbatim>\<open>parse\<close> starts: with or without a byte-order mark.\<close>

lemma rest_Lexer_init [simp]: "rest (Lexer_init src) = src"
  by (simp add: rest_def Lexer_init_def)

subsection \<open>String literals\<close>

text \<open>
  What the specification says of \<^verbatim>\<open>parseString\<close>, written down on its own: \<open>escapes\<close> are the
  eight escapes and the characters they stand for, and \<open>decode\<close> reads the text between the
  quotes from left to right; a backslash with a character after it is an escape, of which the
  backslash is dropped, and the character is looked up in the table and kept as it is when it
  is not there.
\<close>

definition escapes :: "(char \<times> char) list" where
  "escapes = [(DQ, DQ), (BS, BS), (CHR ''/'', CHR ''/''), (CHR ''b'', BSP), (CHR ''f'', FF),
     (CHR ''n'', LF), (CHR ''r'', CR), (CHR ''t'', TAB)]"

fun decode :: "string \<Rightarrow> string" where
  "decode [] = []"
| "decode [c] = [c]"
| "decode (c # d # cs) =
     (if c = BS then (case map_of escapes d of Some e \<Rightarrow> e | None \<Rightarrow> d) # decode cs
      else c # decode (d # cs))"

lemma unescape_escapes: "unescape d = (case map_of escapes d of Some e \<Rightarrow> e | None \<Rightarrow> d)"
  by (simp add: unescape_def escapes_def)

lemma parseStringLoop_decode:
  "parseStringLoop (DQ # pre @ s @ [DQ]) (Suc (length pre)) r = r @ decode s"
proof (induction s arbitrary: pre r rule: decode.induct)
  case (3 c d cs)
  have nth: "(DQ # pre @ (c # d # cs) @ [DQ]) ! Suc (length pre) = c"
    "(DQ # pre @ (c # d # cs) @ [DQ]) ! Suc (Suc (length pre)) = d"
    by (simp_all add: nth_append)
  show ?case
  proof (cases "c = BS")
    case True
    have "parseStringLoop (DQ # pre @ (c # d # cs) @ [DQ]) (Suc (length pre)) r
        = parseStringLoop (DQ # pre @ (c # d # cs) @ [DQ]) (Suc (length pre) + 2) (r @ [unescape d])"
      using True nth by (subst parseStringLoop.simps) simp
    also have "\<dots> = parseStringLoop (DQ # (pre @ [c, d]) @ cs @ [DQ]) (Suc (length (pre @ [c, d])))
        (r @ [unescape d])"
      by simp
    also have "\<dots> = (r @ [unescape d]) @ decode cs"
      using "3.IH"(1) [OF True] .
    finally show ?thesis using True by (simp add: unescape_escapes)
  next
    case False
    have "parseStringLoop (DQ # pre @ (c # d # cs) @ [DQ]) (Suc (length pre)) r
        = parseStringLoop (DQ # pre @ (c # d # cs) @ [DQ]) (Suc (length pre) + 1) (r @ [c])"
      using False nth by (subst parseStringLoop.simps) simp
    also have "\<dots> = parseStringLoop (DQ # (pre @ [c]) @ (d # cs) @ [DQ]) (Suc (length (pre @ [c])))
        (r @ [c])"
      by simp
    also have "\<dots> = (r @ [c]) @ decode (d # cs)"
      using "3.IH"(2) [OF False] .
    finally show ?thesis using False by simp
  qed
next
  case 1
  show ?case by (subst parseStringLoop.simps) simp
next
  case (2 c)
  have "parseStringLoop (DQ # pre @ [c] @ [DQ]) (Suc (length pre)) r
      = parseStringLoop (DQ # pre @ [c] @ [DQ]) (Suc (length pre) + 1) (r @ [c])"
    by (subst parseStringLoop.simps) (simp add: nth_append)
  also have "\<dots> = r @ [c]"
    by (subst parseStringLoop.simps) simp
  finally show ?case by simp
qed

lemma decode_clean: "BS \<notin> set s \<Longrightarrow> decode s = s"
  by (induction s rule: decode.induct) auto

lemma parseStringLoop_lexeme: "parseStringLoop (DQ # s @ [DQ]) 1 [] = decode s"
  using parseStringLoop_decode [of "[]" s "[]"] by simp

text \<open>The start of \<^verbatim>\<open>parse\<close> on a text that does not begin with a byte-order mark.\<close>

definition parser0 :: "string \<Rightarrow> Parser" where
  "parser0 src = \<lparr>lexer = Lexer_init src,
     currentToken = \<lparr>type = EndOfFile, lexeme = [], line = 0, col = 0\<rparr>,
     previousToken = \<lparr>type = EndOfFile, lexeme = [], line = 0, col = 0\<rparr>\<rparr>"

lemma rest_parser0 [simp]: "rest (lexer (parser0 src)) = src"
  by (simp add: parser0_def)

lemma parse_no_bom:
  assumes "src = [] \<or> hd src \<noteq> CHR 0xEF"
  shows "parse src = (case Parser_advance (parser0 src) of
           Inl e \<Rightarrow> Inl e
         | Inr parser \<Rightarrow> (case parseValue parser of Inl e \<Rightarrow> Inl e | Inr (v, p') \<Rightarrow> Inr v))"
proof -
  have nb: "(3 \<le> length src \<and> src ! 0 = CHR 0xEF \<and> src ! 1 = CHR 0xBB \<and> src ! 2 = CHR 0xBF)
      = False"
    using assms by (cases src) auto
  show ?thesis
    unfolding parse_def nb by (simp add: Parser_init_def parser0_def Let_def)
qed

lemma parseValue_String:
  assumes "advances q String (DQ # s @ [DQ]) r p" "Parser_advance p = Inr p'"
  shows "parseValue p = Inr (JString (decode s), p')"
  using assms parseStringLoop_lexeme [of s]
  by (subst parseValue.simps) (simp add: advances_def parseString_def)

subsection \<open>Comments that are not closed\<close>

text \<open>\<open>closes cs\<close>: the text \<open>cs\<close> holds the closer \<^verbatim>\<open>*/\<close> of a block comment.\<close>

fun closes :: "string \<Rightarrow> bool" where
  "closes [] = False"
| "closes [c] = False"
| "closes (c # d # cs) = ((c = CHR ''*'' \<and> d = CHR ''/'') \<or> closes (d # cs))"

lemma skipBlockComment_open:
  "\<not> closes (rest l) \<Longrightarrow> rest (skipBlockComment l) = []"
proof (induction l rule: skipBlockComment.induct)
  case (1 l)
  show ?case
  proof (cases "rest l")
    case Nil
    then have "skipBlockComment l = l" by (subst skipBlockComment.simps) (simp add: isAtEnd_rest)
    then show ?thesis using Nil by simp
  next
    case (Cons c cs)
    define l' where "l' = adv (if peek l = LF then newline l else l)"
    have ne: "\<not> isAtEnd l" using Cons by (simp add: isAtEnd_rest)
    have c: "peek l \<noteq> CHR ''*'' \<or> peekNext l \<noteq> CHR ''/''"
      using Cons "1.prems" by (cases cs) auto
    have r': "rest l' = cs" using Cons by (simp add: l'_def)
    have "\<not> closes cs" using Cons "1.prems" by (cases cs) auto
    then have "rest (skipBlockComment l') = []"
      using "1.IH" [OF conjI [OF c ne]] r' by (simp add: l'_def)
    moreover have "skipBlockComment l = skipBlockComment l'"
      unfolding l'_def using c ne by (subst skipBlockComment.simps) simp
    ultimately show ?thesis by simp
  qed
qed

lemma blockComment_open:
  assumes "rest l = CHR ''/'' # CHR ''*'' # cs" "\<not> closes cs"
  shows "rest (blockComment l) = []"
proof -
  have "rest (adv l) = CHR ''*'' # cs" using assms(1) by simp
  then have "rest (adv (adv l)) = cs" by simp
  then have "rest (skipBlockComment (adv (adv l))) = []"
    using skipBlockComment_open [of "adv (adv l)"] assms(2) by simp
  then show ?thesis by (simp add: blockComment_def Let_def isAtEnd_rest)
qed

lemma skipWhitespace_prefix:
  assumes "rest l = ws @ r" "list_all is_ws ws"
  shows "\<exists>l'. fwd (length ws) l l' \<and> skipWhitespaceAndComments l = skipWhitespaceAndComments l'"
  using assms
proof (induction ws arbitrary: l)
  case Nil
  show ?case by (rule exI [of _ l]) simp
next
  case (Cons w ws)
  then have r: "rest l = w # (ws @ r)" and w: "is_ws w" and ws: "list_all is_ws ws" by simp_all
  have ra: "rest (adv l) = ws @ r" using r by simp
  define l1 where "l1 = (if w = LF then newline (adv l) else adv l)"
  have e: "skipWhitespaceAndComments l = skipWhitespaceAndComments l1"
    using r w unfolding l1_def
    by (subst skipWhitespaceAndComments.simps) (auto simp: Let_def is_ws_def)
  have f1: "fwd 1 l l1"
    using fwd_trans [OF fwd_adv [OF r] fwd_newline [of "adv l"]] fwd_adv [OF r]
    by (simp add: l1_def)
  have "rest l1 = ws @ r" using ra by (simp add: l1_def)
  then obtain l' where l': "fwd (length ws) l1 l'"
      "skipWhitespaceAndComments l1 = skipWhitespaceAndComments l'"
    using Cons.IH [of l1] ws by blast
  have "fwd (1 + length ws) l l'" using f1 l'(1) by (rule fwd_trans)
  then show ?case using e l'(2) by auto
qed

lemma skipWhitespace_open_comment:
  assumes "rest l = ws @ CHR ''/'' # CHR ''*'' # cs" "list_all is_ws ws" "\<not> closes cs"
  shows "rest (skipWhitespaceAndComments l) = []"
    and "source (skipWhitespaceAndComments l) = source l"
proof -
  obtain l' where l': "fwd (length ws) l l'"
      "skipWhitespaceAndComments l = skipWhitespaceAndComments l'"
    using skipWhitespace_prefix [OF assms(1, 2)] by blast
  have r': "rest l' = CHR ''/'' # CHR ''*'' # cs" using fwd_fields(6) [OF l'(1)] assms(1) by simp
  have "skipWhitespaceAndComments l' = skipWhitespaceAndComments (blockComment l')"
    using r' by (subst skipWhitespaceAndComments.simps) (simp add: Let_def)
  moreover have "rest (blockComment l') = []" by (rule blockComment_open [OF r' assms(3)])
  ultimately show "rest (skipWhitespaceAndComments l) = []"
    using skipWhitespaceAndComments_stop [of "blockComment l'"] l'(2) by simp
  show "source (skipWhitespaceAndComments l) = source l" by simp
qed

lemma advances_open_comment:
  assumes "rest (lexer q) = ws @ CHR ''/'' # CHR ''*'' # cs" "list_all is_ws ws" "\<not> closes cs"
  shows "\<exists>p. advances q EndOfFile [] [] p"
proof -
  define l0 where "l0 = skipWhitespaceAndComments (lexer q)"
  have l0: "rest l0 = []" "source l0 = source (lexer q)"
    unfolding l0_def using skipWhitespace_open_comment [OF assms] by simp_all
  have n: "nextToken (lexer q) = scanToken (mark l0)"
    by (simp add: nextToken_scanToken l0_def)
  have "rest (mark l0) = []" "source (mark l0) = source (lexer q)" using l0 by simp_all
  then show ?thesis
    by (intro advancesI [OF trans [OF n scanToken_EndOfFile [OF l0(1)]]]) simp_all
qed

subsection \<open>The place of a character in the source\<close>

text \<open>\<open>token_position src k\<close> is the 1-based line and the 1-based column of the character at
  offset \<open>k\<close> of \<open>src\<close>: one more than the number of line feeds before it, and one more than the
  number of characters between the last of these line feeds and it.\<close>

definition token_position :: "string \<Rightarrow> nat \<Rightarrow> nat \<times> nat" where
  "token_position src k =
     (let pre = take k src
      in (1 + length (filter (\<lambda>c. c = LF) pre),
          1 + length (takeWhile (\<lambda>c. c \<noteq> LF) (rev pre))))"

subsection \<open>The order of the keys of an object\<close>

text \<open>\<open>ordered v\<close>: in every object of \<open>v\<close>, at any depth, the keys of the entries increase
  strictly in the order of iteration.\<close>

fun ordered :: "JsonValue \<Rightarrow> bool" where
  "ordered (JArray xs) = (\<forall>x \<in> set xs. ordered x)"
| "ordered (JObject m) = (sorted_wrt (<) (map fst m) \<and> (\<forall>x \<in> set m. ordered (snd x)))"
| "ordered JNull = True"
| "ordered (JBool b) = True"
| "ordered (JNumber d) = True"
| "ordered (JString s) = True"

lemma set_map_assign: "set (map_assign k v m) \<subseteq> insert (k, v) (set m)"
  by (induction m) (auto split: if_splits)

lemma sorted_map_assign:
  "sorted_wrt (<) (map fst m) \<Longrightarrow> sorted_wrt (<) (map fst (map_assign k (v :: 'v) m))"
proof (induction m)
  case Nil
  then show ?case by simp
next
  case (Cons a m)
  obtain k' v' where a: "a = (k', v')" by (cases a)
  have s: "sorted_wrt (<) (map fst m)" and lt: "\<forall>x \<in> set m. k' < fst x"
    using Cons.prems a by auto
  consider "k < k'" | "k = k'" | "k' < k" by (cases k k' rule: linorder_cases) auto
  then show ?case
  proof cases
    case 1
    then show ?thesis using Cons.prems a by auto
  next
    case 2
    then show ?thesis using Cons.prems a by auto
  next
    case 3
    have "\<forall>x \<in> set (map_assign k v m). k' < fst x"
      using lt 3 set_map_assign [of k v m] by auto
    then show ?thesis using 3 a Cons.IH [OF s] by auto
  qed
qed

lemma ordered_map_assign:
  assumes "ordered (JObject m)" "ordered v"
  shows "ordered (JObject (map_assign k v m))"
  using assms sorted_map_assign [of m k v] set_map_assign [of k v m] by auto

lemma parseString_ordered: "parseString p = Inr (v, p') \<Longrightarrow> ordered v"
  by (auto simp: parseString_def Let_def split: sum.splits)

lemma parseNumber_ordered: "parseNumber p = Inr (v, p') \<Longrightarrow> ordered v"
  by (auto simp: parseNumber_def Let_def split: sum.splits stod_result.splits if_splits)

lemma parse_ordered:
  "parseValue p = Inr (v, p') \<Longrightarrow> ordered v"
  "parseObject p = Inr (ob, p') \<Longrightarrow> ordered (JObject ob)"
  "parseObjectLoop object p = Inr (ob, p') \<Longrightarrow> ordered (JObject object) \<Longrightarrow> ordered (JObject ob)"
  "parseArray p = Inr (ar, p') \<Longrightarrow> ordered (JArray ar)"
  "parseArrayLoop array p = Inr (ar, p') \<Longrightarrow> ordered (JArray array) \<Longrightarrow> ordered (JArray ar)"
proof (induct p and p and object p and p and array p
    arbitrary: v p' and ob p' and ob p' and ar p' and ar p'
    rule: parseValue_parseObject_parseObjectLoop_parseArray_parseArrayLoop.induct)
  case (1 p)
  from "1.prems" show ?case
    apply (subst (asm) parseValue.simps)
    apply (auto split: TokenType.splits sum.splits prod.splits
        dest: parseString_ordered parseNumber_ordered "1.hyps"(1) "1.hyps"(2))
    done
next
  case (2 p)
  from "2.prems" obtain p1 p2 where
    c1: "consume LeftBrace ''Expected '{' to start an object.'' p = Inr p1" and
    r: "(if type (currentToken p1) \<noteq> RightBrace then parseObjectLoop [] p1 else Inr ([], p1))
          = Inr (ob, p2)"
    by (subst (asm) parseObject.simps) (auto split: sum.splits prod.splits)
  show ?case
    using r "2.hyps" [OF c1] by (auto split: if_splits)
next
  case (3 object p)
  let ?key = "take (length (lexeme (currentToken p)) - 2) (drop 1 (lexeme (currentToken p)))"
  from "3.prems"(1) obtain p1 p2 v p3 where
    ty: "\<not> type (currentToken p) \<noteq> String" and
    c1: "Parser_advance p = Inr p1" and
    c2: "consume Colon ''Expected ':' after object key.'' p1 = Inr p2" and
    c3: "parseValue p2 = Inr (v, p3)" and
    r: "(if type (currentToken p3) = RightBrace then Inr (map_assign ?key v object, p3)
         else (case consume Comma ''Expected ',' or '}' after object member.'' p3 of
                 Inl e \<Rightarrow> Inl e
               | Inr p4 \<Rightarrow> parseObjectLoop (map_assign ?key v object) p4)) = Inr (ob, p')"
    by (subst (asm) parseObjectLoop.simps)
       (auto simp: Let_def split: sum.splits prod.splits if_splits)
  have v: "ordered v" by (rule "3.hyps"(1) [OF ty refl c1 c2 c3])
  have m: "ordered (JObject (map_assign ?key v object))"
    by (rule ordered_map_assign [OF "3.prems"(2) v])
  show ?case
  proof (cases "type (currentToken p3) = RightBrace")
    case True
    then show ?thesis using r m by simp
  next
    case False
    then obtain p4 where
      c4: "consume Comma ''Expected ',' or '}' after object member.'' p3 = Inr p4" and
      c5: "parseObjectLoop (map_assign ?key v object) p4 = Inr (ob, p')"
      using r by (auto split: sum.splits)
    show ?thesis by (rule "3.hyps"(2) [OF ty refl c1 c2 c3 refl False c4 c5 m])
  qed
next
  case (4 p)
  from "4.prems" obtain p1 p2 where
    c1: "consume LeftBracket ''Expected '[' to start an array.'' p = Inr p1" and
    r: "(if type (currentToken p1) \<noteq> RightBracket then parseArrayLoop [] p1 else Inr ([], p1))
          = Inr (ar, p2)"
    by (subst (asm) parseArray.simps) (auto split: sum.splits prod.splits)
  show ?case
    using r "4.hyps" [OF c1] by (auto split: if_splits)
next
  case (5 array p)
  from "5.prems"(1) obtain v p1 where
    c1: "parseValue p = Inr (v, p1)" and
    r: "(if type (currentToken p1) = RightBracket then Inr (array @ [v], p1)
         else (case consume Comma ''Expected ',' or ']' after array element.'' p1 of
                 Inl e \<Rightarrow> Inl e
               | Inr p2 \<Rightarrow> parseArrayLoop (array @ [v]) p2)) = Inr (ar, p')"
    by (subst (asm) parseArrayLoop.simps) (auto split: sum.splits prod.splits)
  have v: "ordered v" by (rule "5.hyps"(1) [OF c1])
  have m: "ordered (JArray (array @ [v]))" using "5.prems"(2) v by auto
  show ?case
  proof (cases "type (currentToken p1) = RightBracket")
    case True
    then show ?thesis using r m by simp
  next
    case False
    then obtain p2 where
      c2: "consume Comma ''Expected ',' or ']' after array element.'' p1 = Inr p2" and
      c3: "parseArrayLoop (array @ [v]) p2 = Inr (ar, p')"
      using r by (auto split: sum.splits)
    show ?thesis by (rule "5.hyps"(2) [OF c1 refl False c2 c3 m])
  qed
qed

lemma parse_ordered_top: "parse src = Inr v \<Longrightarrow> ordered v"
  by (auto simp: parse_def Let_def split: sum.splits prod.splits dest: parse_ordered(1))

subsection \<open>Whole numbers as doubles\<close>

lemma digit_val_nonneg: "isdigit c \<Longrightarrow> 0 \<le> digit_val c"
proof -
  assume "isdigit c"
  then have "48 \<le> (of_char c :: nat)" by (simp add: isdigit_nat)
  then have "48 \<le> int (of_char c)" by linarith
  then show ?thesis by (simp add: digit_val_def of_nat_of_char)
qed

lemma foldl_digits_nonneg:
  "list_all isdigit ds \<Longrightarrow> 0 \<le> a \<Longrightarrow> 0 \<le> foldl (\<lambda>a c. 10 * a + digit_val c) a ds"
proof (induction ds arbitrary: a)
  case Nil
  then show ?case by simp
next
  case (Cons d ds)
  have "0 \<le> 10 * a + digit_val d" using Cons.prems digit_val_nonneg [of d] by simp
  then show ?case using Cons.IH [of "10 * a + digit_val d"] Cons.prems by simp
qed

lemma digits_val_nonneg: "list_all isdigit ds \<Longrightarrow> 0 \<le> digits_val ds"
  using foldl_digits_nonneg [of ds 0] by (simp add: digits_val_def)

text \<open>The number of binary digits of a positive integer.\<close>

lemma ndigits_pos: "0 < n \<Longrightarrow> ndigits 2 n = Suc (ndigits 2 (n div 2))"
  by (subst ndigits.simps) simp

lemma ndigits_nonpos: "n \<le> 0 \<Longrightarrow> ndigits 2 n = 0"
  by (subst ndigits.simps) simp

lemma ndigits_bounds:
  "0 < n \<Longrightarrow> 2 ^ (ndigits 2 n - 1) \<le> n \<and> n < 2 ^ ndigits 2 n"
proof (induction "nat n" arbitrary: n rule: less_induct)
  case less
  show ?case
  proof (cases "n = 1")
    case True
    have "ndigits 2 1 = 1" using ndigits_pos [of 1] ndigits_nonpos [of 0] by simp
    then show ?thesis using True by simp
  next
    case False
    then have h: "0 < n div 2" "nat (n div 2) < nat n" using less.prems by auto
    have IH: "2 ^ (ndigits 2 (n div 2) - 1) \<le> n div 2 \<and> n div 2 < 2 ^ ndigits 2 (n div 2)"
      using less.hyps [OF h(2) h(1)] .
    have pos: "0 < ndigits 2 (n div 2)" using ndigits_pos [OF h(1)] by simp
    have e: "ndigits 2 n = Suc (ndigits 2 (n div 2))" by (rule ndigits_pos [OF less.prems])
    have "2 * 2 ^ (ndigits 2 (n div 2) - 1) \<le> n" using IH by linarith
    moreover have "2 * (2::int) ^ (ndigits 2 (n div 2) - 1) = 2 ^ ndigits 2 (n div 2)"
      using pos by (cases "ndigits 2 (n div 2)") simp_all
    moreover have "n < 2 * 2 ^ ndigits 2 (n div 2)" using IH by linarith
    ultimately show ?thesis using e by simp
  qed
qed

lemma power2_less_53:
  assumes "(2::int) ^ m < 2 ^ 53"
  shows "m < 53"
proof (rule ccontr)
  assume "\<not> m < 53"
  then have "53 \<le> m" by simp
  then have "(2::int) ^ 53 \<le> 2 ^ m" by (rule power_increasing) simp
  then show False using assms by linarith
qed

lemma ilog_of_int:
  assumes "0 < n"
  shows "ilog 2 (of_int n) = int (ndigits 2 n) - 1"
proof -
  have one: "ndigits 2 1 = 1" using ndigits_pos [of 1] ndigits_nonpos [of 0] by simp
  have pos: "0 < ndigits 2 n" using ndigits_pos [OF assms] by simp
  have "(2::int) ^ (ndigits 2 n - 1) \<le> n" using ndigits_bounds [OF assms] by simp
  then have "(of_int (2 ^ (ndigits 2 n - 1)) :: rat) \<le> of_int n" by (simp only: of_int_le_iff)
  then have "scale 2 1 (int (ndigits 2 n) - 1) \<le> of_int n"
    using pos by (simp add: scale_def nat_diff_distrib)
  then show ?thesis by (simp add: ilog_def Let_def one)
qed

lemma round_half_even_of_int [simp]: "round_half_even (of_int m) = m"
  by (simp add: round_half_even_def Let_def)

text \<open>An integer below \<open>2\<^sup>5\<^sup>3\<close> is a double.\<close>

lemma round_double_of_int:
  assumes "\<bar>n\<bar> < 2 ^ 53"
  shows "round_double (of_int n) = of_int n"
proof (cases "n = 0")
  case True
  then show ?thesis by (simp add: round_double_def)
next
  case False
  define a where "a = \<bar>n\<bar>"
  have a: "0 < a" "a < 2 ^ 53" using False assms by (simp_all add: a_def)
  define e where "e = ndigits 2 a"
  have "(2::int) ^ (e - 1) \<le> a" using ndigits_bounds [OF a(1)] by (simp add: e_def)
  then have "(2::int) ^ (e - 1) < 2 ^ 53" using a(2) by linarith
  then have e: "e \<le> 53" using power2_less_53 [of "e - 1"] by linarith
  have il: "ilog 2 (of_int a) = int e - 1" using ilog_of_int [OF a(1)] by (simp add: e_def)
  define k where "k = max (int e - 1 - 52) (- 1074)"
  have k: "k \<le> 0" "- 1074 \<le> k" using e by (simp_all add: k_def)
  have s1: "scale 2 (of_int a) (- k) = of_int (a * 2 ^ nat (- k))"
    using k by (simp add: scale_def)
  have s2: "scale 2 (of_int (a * 2 ^ nat (- k))) k = of_int a"
    using k by (simp add: scale_def)
  have ab: "\<bar>of_int n :: rat\<bar> = of_int a" by (simp add: a_def)
  have "round_double (of_int n)
      = sgn (of_int n) * scale 2 (of_int (round_half_even (scale 2 \<bar>of_int n\<bar>
          (- max (ilog 2 \<bar>of_int n\<bar> - 52) (- 1074))))) (max (ilog 2 \<bar>of_int n\<bar> - 52) (- 1074))"
    using False by (simp add: round_double_def Let_def)
  also have "\<dots> = sgn (of_int n) * of_int a"
    unfolding ab il k_def [symmetric] s1 round_half_even_of_int s2 ..
  also have "\<dots> = of_int n" by (simp add: a_def sgn_if)
  finally show ?thesis .
qed

lemma ilog_small:
  assumes "0 < n" "n < 2 ^ 53"
  shows "0 \<le> ilog 2 (of_int n)" "ilog 2 (of_int n) < 53"
proof -
  have b: "(2::int) ^ (ndigits 2 n - 1) \<le> n" using ndigits_bounds [OF assms(1)] by simp
  then have "(2::int) ^ (ndigits 2 n - 1) < 2 ^ 53" using assms(2) by linarith
  then have "ndigits 2 n \<le> 53" using power2_less_53 [of "ndigits 2 n - 1"] by linarith
  moreover have "0 < ndigits 2 n" using ndigits_pos [OF assms(1)] by simp
  ultimately show "0 \<le> ilog 2 (of_int n)" "ilog 2 (of_int n) < 53"
    using ilog_of_int [OF assms(1)] by simp_all
qed

lemma ilog_of_int_nonneg: "0 < n \<Longrightarrow> 0 \<le> ilog 2 (of_int n)"
  using ilog_of_int [of n] ndigits_pos [of n] by simp

subsection \<open>A minus sign and digits\<close>

lemma stod_minus_digits:
  assumes "ds \<noteq> []" "list_all isdigit ds"
  shows "stod (CHR ''-'' # ds) =
     (let r = round_double (- of_int (digits_val ds))
      in if r \<noteq> 0 \<and> 1024 \<le> ilog 2 \<bar>r\<bar> then Out_of_range
         else Converted r (Suc (length ds)))"
proof -
  have tw: "takeWhile isdigit ds = ds" "dropWhile isdigit ds = []"
    using assms(2) by (simp_all add: list_all_iff)
  define q :: rat where "q = of_int (digits_val ds)"
  define r where "r = round_double (- q)"
  have sc: "scale 10 (of_int (digits_val ds)) 0 = q" by (simp add: scale_def q_def)
  have "q = 0 \<or> \<not> ilog 2 q < - 1022"
  proof (cases "digits_val ds = 0")
    case True
    then show ?thesis by (simp add: q_def)
  next
    case False
    then have "0 < digits_val ds" using digits_val_nonneg [OF assms(2)] by simp
    then have "0 \<le> ilog 2 q" unfolding q_def by (rule ilog_of_int_nonneg)
    then show ?thesis by simp
  qed
  then have "stod (CHR ''-'' # ds) =
     (if r \<noteq> 0 \<and> 1024 \<le> ilog 2 \<bar>r\<bar> then Out_of_range else Converted r (Suc (length ds)))"
    using assms(1) by (auto simp: stod_def Let_def r_def tw sc digits_val_def [of "[]"])
  then show ?thesis by (simp add: Let_def r_def q_def)
qed

lemma first_token_Number:
  assumes "src = c # ip @ fp @ ex @ r" "isdigit c \<or> c = CHR ''-''"
    and "list_all isdigit ip" "fraction_part fp" "exponent_part ex" "delimited r"
  shows "\<exists>p. Parser_advance (parser0 src) = Inr p
    \<and> currentToken p = \<lparr>type = Number, lexeme = c # ip @ fp @ ex, line = 1, col = 1\<rparr>
    \<and> rest (lexer p) = r"
proof -
  define l where "l = Lexer_init src"
  have rl: "rest l = c # ip @ fp @ ex @ r" using assms(1) by (simp add: l_def)
  have "\<not> is_ws c \<and> c \<noteq> CHR ''/''"
  proof (cases "isdigit c")
    case True
    then show ?thesis using isdigit_other [OF True] by simp
  next
    case False
    then have "c = CHR ''-''" using assms(2) by simp
    then show ?thesis by (simp add: is_ws_def)
  qed
  then have "skipWhitespaceAndComments l = l"
    using skipWhitespaceAndComments_stop [of l] rl by simp
  then have n: "nextToken l = scanToken (mark l)" by (simp add: nextToken_scanToken)
  obtain l' where l': "scanToken (mark l)
      = (\<lparr>type = Number, lexeme = c # ip @ fp @ ex, line = lineNum l, col = colNum l\<rparr>, l')"
      "rest l' = r"
    using scanToken_Number [OF rl assms(2-6)] by blast
  have "lineNum l = 1" "colNum l = 1" by (simp_all add: l_def Lexer_init_def)
  then have "nextToken (lexer (parser0 src))
      = (\<lparr>type = Number, lexeme = c # ip @ fp @ ex, line = 1, col = 1\<rparr>, l')"
    using n l'(1) by (simp add: parser0_def l_def)
  then show ?thesis using l'(2) by (simp add: Parser_advance_def)
qed

lemma parse_minus_digits:
  assumes "ds \<noteq> []" "list_all isdigit ds"
  shows "parse (CHR ''-'' # ds) =
     (let r = round_double (- of_int (digits_val ds))
      in if r \<noteq> 0 \<and> 1024 \<le> ilog 2 \<bar>r\<bar>
         then Inl (ParsingError ''Number is out of range for a double.'' 1 1)
         else Inr (JNumber r))"
proof -
  have "CHR ''-'' # ds = CHR ''-'' # ds @ [] @ [] @ []" by simp
  from first_token_Number [OF this]
  obtain p where p: "Parser_advance (parser0 (CHR ''-'' # ds)) = Inr p"
      "currentToken p = \<lparr>type = Number, lexeme = CHR ''-'' # ds, line = 1, col = 1\<rparr>"
      "rest (lexer p) = []"
    using assms(2) by (auto simp: fraction_part_def exponent_part_def delimited_def)
  obtain p' where p': "Parser_advance p = Inr p'"
    using advances_EndOfFile [of p "[]"] p(3) by (auto simp: advances_def)
  have "parseValue p = parseNumber p"
    using p(2) by (subst parseValue.simps) simp
  then have "parseValue p =
     (let r = round_double (- of_int (digits_val ds))
      in if r \<noteq> 0 \<and> 1024 \<le> ilog 2 \<bar>r\<bar>
         then Inl (ParsingError ''Number is out of range for a double.'' 1 1)
         else Inr (JNumber r, p'))"
    using p(2) p' stod_minus_digits [OF assms] by (simp add: parseNumber_def Let_def)
  then show ?thesis using p(1) by (simp add: parse_no_bom Let_def)
qed

subsection \<open>Reading back what \<^verbatim>\<open>serialise\<close> writes\<close>

text \<open>\<open>exact d\<close>: the text written for the number \<open>d\<close> is read back by \<^verbatim>\<open>std::stod\<close> as
  \<open>d\<close>, all of it.\<close>

definition exact :: "double \<Rightarrow> bool" where
  "exact d = (stod (show_double d) = Converted d (length (show_double d)))"

definition number_shape :: "string \<Rightarrow> bool" where
  "number_shape s =
     (\<exists>c ip fp ex. s = c # ip @ fp @ ex \<and> (isdigit c \<or> c = CHR ''-'')
        \<and> list_all isdigit ip \<and> fraction_part fp \<and> exponent_part ex)"

text \<open>\<open>then_advance res v r\<close>: the result \<open>res\<close> is the value \<open>v\<close> and then an \<^verbatim>\<open>advance\<close> from
  a state whose Lexer stands in front of \<open>r\<close>.\<close>

definition then_advance :: "ParsingError + 'a \<times> Parser \<Rightarrow> 'a \<Rightarrow> string \<Rightarrow> bool" where
  "then_advance res v r =
     (\<exists>q'. rest (lexer q') = r
        \<and> res = (case Parser_advance q' of Inl e \<Rightarrow> Inl e | Inr p' \<Rightarrow> Inr (v, p')))"

text \<open>\<open>reads_value v\<close>: from a state whose Lexer stands in front of white space, the text of \<open>v\<close>
  at any indentation, and a text \<open>r\<close> that cannot continue a number or a word, \<^verbatim>\<open>advance\<close>
  and \<^verbatim>\<open>parseValue\<close> give \<open>v\<close> and go on to read the first token of \<open>r\<close>.\<close>

definition reads_value :: "JsonValue \<Rightarrow> bool" where
  "reads_value v =
     (\<forall>q ws ind r. rest (lexer q) = ws @ serialise v ind @ r \<longrightarrow> list_all is_ws ws \<longrightarrow> delimited r
        \<longrightarrow> (\<exists>p. Parser_advance q = Inr p \<and> type (currentToken p) \<noteq> RightBracket
               \<and> type (currentToken p) \<noteq> RightBrace \<and> then_advance (parseValue p) v r))"

lemma reads_valueI:
  assumes "\<And>q ws ind r. rest (lexer q) = ws @ serialise v ind @ r \<Longrightarrow> list_all is_ws ws \<Longrightarrow>
      delimited r \<Longrightarrow> \<exists>p. Parser_advance q = Inr p \<and> type (currentToken p) \<noteq> RightBracket
               \<and> type (currentToken p) \<noteq> RightBrace \<and> then_advance (parseValue p) v r"
  shows "reads_value v"
  unfolding reads_value_def using assms by blast

lemma reads_valueD:
  assumes "reads_value v" "rest (lexer q) = ws @ serialise v ind @ r" "list_all is_ws ws"
    "delimited r"
  obtains p q' where "Parser_advance q = Inr p" "type (currentToken p) \<noteq> RightBracket"
    "type (currentToken p) \<noteq> RightBrace" "rest (lexer q') = r"
    "parseValue p = (case Parser_advance q' of Inl e \<Rightarrow> Inl e | Inr p' \<Rightarrow> Inr (v, p'))"
  using assms unfolding reads_value_def then_advance_def by blast

lemma delimited_not_alpha: "delimited r \<Longrightarrow> r = [] \<or> \<not> isalpha (hd r)"
  by (auto simp: delimited_def)

lemma reads_keyword:
  assumes "(w, ty) \<in> set [(''true'', TrueTok), (''false'', FalseTok), (''null'', NullTok)]"
    and "rest (lexer q) = ws @ w @ r" "list_all is_ws ws" "delimited r"
  shows "\<exists>p. Parser_advance q = Inr p \<and> type (currentToken p) = ty \<and> rest (lexer p) = r"
  using advances_keyword [OF assms(2, 3, 1) delimited_not_alpha [OF assms(4)]]
  by (auto simp: advances_def)

lemma reads_Null: "reads_value JNull"
proof (rule reads_valueI)
  fix q :: Parser and ws ind r
  assume a: "rest (lexer q) = ws @ serialise JNull ind @ r" "list_all is_ws ws" "delimited r"
  have "rest (lexer q) = ws @ ''null'' @ r" using a(1) by simp
  from reads_keyword [OF _ this a(2, 3), of NullTok]
  obtain p where p: "Parser_advance q = Inr p" "type (currentToken p) = NullTok"
      "rest (lexer p) = r"
    by auto
  have "parseValue p = (case Parser_advance p of Inl e \<Rightarrow> Inl e | Inr p' \<Rightarrow> Inr (JNull, p'))"
    using p(2) by (subst parseValue.simps) simp
  then have "then_advance (parseValue p) JNull r"
    unfolding then_advance_def using p(3) by blast
  then show "\<exists>p. Parser_advance q = Inr p \<and> type (currentToken p) \<noteq> RightBracket
      \<and> type (currentToken p) \<noteq> RightBrace \<and> then_advance (parseValue p) JNull r"
    using p(1, 2) by auto
qed

lemma reads_Bool: "reads_value (JBool b)"
proof (rule reads_valueI)
  fix q :: Parser and ws ind r
  assume a: "rest (lexer q) = ws @ serialise (JBool b) ind @ r" "list_all is_ws ws" "delimited r"
  define w where "w = (if b then ''true'' else ''false'')"
  define ty where "ty = (if b then TrueTok else FalseTok)"
  have "rest (lexer q) = ws @ w @ r" using a(1) by (simp add: w_def)
  moreover have "(w, ty) \<in> set [(''true'', TrueTok), (''false'', FalseTok), (''null'', NullTok)]"
    by (simp add: w_def ty_def)
  ultimately obtain p where p: "Parser_advance q = Inr p" "type (currentToken p) = ty"
      "rest (lexer p) = r"
    using reads_keyword [of w ty q ws r] a(2, 3) by blast
  have "parseValue p = (case Parser_advance p of Inl e \<Rightarrow> Inl e | Inr p' \<Rightarrow> Inr (JBool b, p'))"
    using p(2) by (subst parseValue.simps) (cases b; simp add: ty_def split: sum.splits)
  then have "then_advance (parseValue p) (JBool b) r"
    unfolding then_advance_def using p(3) by blast
  then show "\<exists>p. Parser_advance q = Inr p \<and> type (currentToken p) \<noteq> RightBracket
      \<and> type (currentToken p) \<noteq> RightBrace \<and> then_advance (parseValue p) (JBool b) r"
    using p(1, 2) by (auto simp: ty_def)
qed

lemma reads_String:
  assumes "DQ \<notin> set s" "BS \<notin> set s"
  shows "reads_value (JString s)"
proof (rule reads_valueI)
  fix q :: Parser and ws ind r
  assume a: "rest (lexer q) = ws @ serialise (JString s) ind @ r" "list_all is_ws ws" "delimited r"
  have "rest (lexer q) = ws @ DQ # s @ DQ # r" using a(1) by simp
  from advances_String_clean [OF this a(2) assms]
  obtain p where p: "Parser_advance q = Inr p" "type (currentToken p) = String"
      "lexeme (currentToken p) = DQ # s @ [DQ]" "rest (lexer p) = r"
    by (auto simp: advances_def)
  have "parseStringLoop (lexeme (currentToken p)) 1 [] = s"
    using parseStringLoop_lexeme [of s] decode_clean [OF assms(2)] p(3) by simp
  then have "parseValue p
      = (case Parser_advance p of Inl e \<Rightarrow> Inl e | Inr p' \<Rightarrow> Inr (JString s, p'))"
    using p(2) by (subst parseValue.simps) (simp add: parseString_def)
  then have "then_advance (parseValue p) (JString s) r"
    unfolding then_advance_def using p(4) by blast
  then show "\<exists>p. Parser_advance q = Inr p \<and> type (currentToken p) \<noteq> RightBracket
      \<and> type (currentToken p) \<noteq> RightBrace \<and> then_advance (parseValue p) (JString s) r"
    using p(1, 2) by auto
qed

lemma reads_Number:
  assumes "exact d" "number_shape (show_double d)"
  shows "reads_value (JNumber d)"
proof (rule reads_valueI)
  fix q :: Parser and ws ind r
  assume a: "rest (lexer q) = ws @ serialise (JNumber d) ind @ r" "list_all is_ws ws" "delimited r"
  obtain c ip fp ex where sh: "show_double d = c # ip @ fp @ ex" "isdigit c \<or> c = CHR ''-''"
      "list_all isdigit ip" "fraction_part fp" "exponent_part ex"
    using assms(2) unfolding number_shape_def by blast
  have "rest (lexer q) = ws @ c # ip @ fp @ ex @ r" using a(1) sh(1) by simp
  from advances_Number [OF this a(2) sh(2-5) a(3)]
  obtain p where p: "Parser_advance q = Inr p" "type (currentToken p) = Number"
      "lexeme (currentToken p) = show_double d" "rest (lexer p) = r"
    using sh(1) by (auto simp: advances_def)
  have "parseNumber p = (case Parser_advance p of Inl e \<Rightarrow> Inl e | Inr p' \<Rightarrow> Inr (JNumber d, p'))"
    using assms(1) p(3) by (simp add: parseNumber_def exact_def Let_def)
  then have "parseValue p
      = (case Parser_advance p of Inl e \<Rightarrow> Inl e | Inr p' \<Rightarrow> Inr (JNumber d, p'))"
    using p(2) by (subst parseValue.simps) simp
  then have "then_advance (parseValue p) (JNumber d) r"
    unfolding then_advance_def using p(4) by blast
  then show "\<exists>p. Parser_advance q = Inr p \<and> type (currentToken p) \<noteq> RightBracket
      \<and> type (currentToken p) \<noteq> RightBrace \<and> then_advance (parseValue p) (JNumber d) r"
    using p(1, 2) by auto
qed

lemma is_ws_simps [simp]: "is_ws (CHR '' '')" "is_ws LF"
  by (simp_all add: is_ws_def)

lemma is_ws_spaces [simp]: "list_all is_ws (replicate n (CHR '' ''))"
  by (simp add: list_all_iff)

lemma single_token:
  assumes "rest (lexer q) = ws @ c # r" "list_all is_ws ws"
    and "(c, ty) \<in> set [(CHR ''{'', LeftBrace), (CHR ''}'', RightBrace), (CHR ''['', LeftBracket),
           (CHR '']'', RightBracket), (CHR '','', Comma), (CHR '':'', Colon)]"
  obtains p where "Parser_advance q = Inr p" "type (currentToken p) = ty" "rest (lexer p) = r"
  using advances_single [OF assms] by (auto simp: advances_def)

text \<open>The loop of \<^verbatim>\<open>parseArray\<close> on the elements written by \<open>serialiseArray\<close>.\<close>

lemma array_loop:
  assumes "\<forall>x \<in> set xs. reads_value x" "xs \<noteq> []"
    and "rest (lexer q) = ws @ serialiseArray xs ind @ replicate ind (CHR '' '') @ CHR '']'' # r"
    and "list_all is_ws ws"
  shows "\<exists>p q'. Parser_advance q = Inr p \<and> type (currentToken p) \<noteq> RightBracket
    \<and> rest (lexer q') = r \<and> type (currentToken q') = RightBracket
    \<and> (\<forall>acc. parseArrayLoop acc p = Inr (acc @ xs, q'))"
  using assms
proof (induction xs arbitrary: q ws)
  case Nil
  then show ?case by simp
next
  case (Cons x xs)
  define tl where "tl = (if xs \<noteq> [] then '','' else []) @ [LF] @ serialiseArray xs ind
      @ replicate ind (CHR '' '') @ CHR '']'' # r"
  have r: "rest (lexer q) = (ws @ replicate (ind + 2) (CHR '' '')) @ serialise x (ind + 2) @ tl"
    using Cons.prems(3) by (simp add: tl_def)
  have ws: "list_all is_ws (ws @ replicate (ind + 2) (CHR '' ''))" using Cons.prems(4) by simp
  have del: "delimited tl" by (simp add: tl_def delimited_def isdigit_nat isalpha_nat)
  have rx: "reads_value x" using Cons.prems(1) by simp
  from reads_valueD [OF rx r ws del]
  obtain p q1 where p: "Parser_advance q = Inr p" "type (currentToken p) \<noteq> RightBracket"
      "rest (lexer q1) = tl"
      "parseValue p = (case Parser_advance q1 of Inl e \<Rightarrow> Inl e | Inr p' \<Rightarrow> Inr (x, p'))"
    by blast
  show ?case
  proof (cases "xs = []")
    case True
    have "rest (lexer q1) = (LF # replicate ind (CHR '' '')) @ CHR '']'' # r"
      using p(3) True by (simp add: tl_def)
    moreover have "list_all is_ws (LF # replicate ind (CHR '' ''))" by (simp add: is_ws_def)
    ultimately obtain p2 where p2: "Parser_advance q1 = Inr p2"
        "type (currentToken p2) = RightBracket" "rest (lexer p2) = r"
      by (rule single_token [where ty = RightBracket]) simp_all
    have "parseArrayLoop acc p = Inr (acc @ x # xs, p2)" for acc
      using p(4) p2(1, 2) True by (subst parseArrayLoop.simps) simp
    then show ?thesis using p(1, 2) p2(2, 3) by blast
  next
    case False
    have "rest (lexer q1) = [] @ CHR '','' # ([LF] @ serialiseArray xs ind
        @ replicate ind (CHR '' '') @ CHR '']'' # r)"
      using p(3) False by (simp add: tl_def)
    then obtain p2 where p2: "Parser_advance q1 = Inr p2" "type (currentToken p2) = Comma"
        "rest (lexer p2) = [LF] @ serialiseArray xs ind @ replicate ind (CHR '' '') @ CHR '']'' # r"
      by (rule single_token [where ty = Comma]) simp_all
    have "\<forall>x \<in> set xs. reads_value x" using Cons.prems(1) by simp
    from Cons.IH [OF this False p2(3)]
    obtain p3 q' where p3: "Parser_advance p2 = Inr p3" "rest (lexer q') = r"
        "type (currentToken q') = RightBracket"
        "\<And>acc. parseArrayLoop acc p3 = Inr (acc @ xs, q')"
      by (auto simp: is_ws_def)
    have "parseArrayLoop acc p = Inr (acc @ x # xs, q')" for acc
      using p(4) p2(1, 2) p3(1) p3(4) [of "acc @ [x]"]
      by (subst parseArrayLoop.simps) (simp add: consume_def)
    then show ?thesis using p(1, 2) p3(2, 3) by blast
  qed
qed

lemma reads_Array:
  assumes "\<forall>x \<in> set xs. reads_value x"
  shows "reads_value (JArray xs)"
proof (rule reads_valueI)
  fix q :: Parser and ws ind r
  assume a: "rest (lexer q) = ws @ serialise (JArray xs) ind @ r" "list_all is_ws ws" "delimited r"
  have "rest (lexer q) = ws @ CHR ''['' # ([LF] @ serialiseArray xs ind
      @ replicate ind (CHR '' '') @ CHR '']'' # r)"
    using a(1) by simp
  then obtain p where p: "Parser_advance q = Inr p" "type (currentToken p) = LeftBracket"
      "rest (lexer p) = [LF] @ serialiseArray xs ind @ replicate ind (CHR '' '') @ CHR '']'' # r"
    using a(2) by (rule single_token [where ty = LeftBracket]) simp_all
  have "\<exists>q'. rest (lexer q') = r
      \<and> parseArray p = (case Parser_advance q' of Inl e \<Rightarrow> Inl e | Inr p' \<Rightarrow> Inr (xs, p'))"
  proof (cases "xs = []")
    case True
    have "rest (lexer p) = (LF # replicate ind (CHR '' '')) @ CHR '']'' # r"
      using p(3) True by simp
    moreover have "list_all is_ws (LF # replicate ind (CHR '' ''))" by (simp add: is_ws_def)
    ultimately obtain p1 where p1: "Parser_advance p = Inr p1"
        "type (currentToken p1) = RightBracket" "rest (lexer p1) = r"
      by (rule single_token [where ty = RightBracket]) simp_all
    have "parseArray p = (case Parser_advance p1 of Inl e \<Rightarrow> Inl e | Inr p' \<Rightarrow> Inr (xs, p'))"
      using p(2) p1(1, 2) True
      by (subst parseArray.simps) (simp add: consume_def split: sum.splits)
    then show ?thesis using p1(3) by blast
  next
    case False
    from array_loop [OF assms False p(3)]
    obtain p1 q' where p1: "Parser_advance p = Inr p1" "type (currentToken p1) \<noteq> RightBracket"
        "rest (lexer q') = r" "type (currentToken q') = RightBracket"
        "\<And>acc. parseArrayLoop acc p1 = Inr (acc @ xs, q')"
      by (auto simp: is_ws_def)
    have "parseArray p = (case Parser_advance q' of Inl e \<Rightarrow> Inl e | Inr p' \<Rightarrow> Inr (xs, p'))"
      using p(2) p1(1, 2, 4) p1(5) [of "[]"]
      by (subst parseArray.simps) (simp add: consume_def split: sum.splits)
    then show ?thesis using p1(3) by blast
  qed
  then obtain q' where q': "rest (lexer q') = r"
      "parseArray p = (case Parser_advance q' of Inl e \<Rightarrow> Inl e | Inr p' \<Rightarrow> Inr (xs, p'))"
    by blast
  have "parseValue p
      = (case Parser_advance q' of Inl e \<Rightarrow> Inl e | Inr p' \<Rightarrow> Inr (JArray xs, p'))"
    using p(2) q'(2) by (subst parseValue.simps) (simp split: sum.splits)
  then have "then_advance (parseValue p) (JArray xs) r"
    unfolding then_advance_def using q'(1) by blast
  then show "\<exists>p. Parser_advance q = Inr p \<and> type (currentToken p) \<noteq> RightBracket
      \<and> type (currentToken p) \<noteq> RightBrace \<and> then_advance (parseValue p) (JArray xs) r"
    using p(1, 2) by auto
qed

text \<open>The loop of \<^verbatim>\<open>parseObject\<close> on the entries written by \<open>serialiseObject\<close>: the entries
  are assigned to the object one after the other.\<close>

definition assign_all :: "(string \<times> JsonValue) list \<Rightarrow> (string \<times> JsonValue) list
    \<Rightarrow> (string \<times> JsonValue) list" where
  "assign_all acc m = foldl (\<lambda>a e. map_assign (fst e) (snd e) a) acc m"

lemma assign_all_Cons: "assign_all acc ((k, v) # m) = assign_all (map_assign k v acc) m"
  by (simp add: assign_all_def)

lemma object_loop:
  assumes "\<forall>e \<in> set m. reads_value (snd e)" "m \<noteq> []"
    and "\<forall>e \<in> set m. DQ \<notin> set (fst e) \<and> BS \<notin> set (fst e)"
    and "rest (lexer q) = ws @ serialiseObject m ind @ replicate ind (CHR '' '') @ CHR ''}'' # r"
    and "list_all is_ws ws"
  shows "\<exists>p q'. Parser_advance q = Inr p \<and> type (currentToken p) \<noteq> RightBrace
    \<and> rest (lexer q') = r \<and> type (currentToken q') = RightBrace
    \<and> (\<forall>acc. parseObjectLoop acc p = Inr (assign_all acc m, q'))"
  using assms
proof (induction m arbitrary: q ws)
  case Nil
  then show ?case by simp
next
  case (Cons e m)
  obtain k v where e: "e = (k, v)" by (cases e)
  define tl where "tl = (if m \<noteq> [] then '','' else []) @ [LF] @ serialiseObject m ind
      @ replicate ind (CHR '' '') @ CHR ''}'' # r"
  have k: "DQ \<notin> set k" "BS \<notin> set k" using Cons.prems(3) e by simp_all
  have rv: "reads_value v" using Cons.prems(1) e by simp
  have r: "rest (lexer q) = (ws @ replicate (ind + 2) (CHR '' ''))
      @ DQ # k @ DQ # (CHR '':'' # CHR '' '' # serialise v (ind + 2) @ tl)"
    using Cons.prems(4) e by (simp add: tl_def)
  have ws: "list_all is_ws (ws @ replicate (ind + 2) (CHR '' ''))" using Cons.prems(5) by simp
  from advances_String_clean [OF r ws k]
  obtain p where p: "Parser_advance q = Inr p" "type (currentToken p) = String"
      "lexeme (currentToken p) = DQ # k @ [DQ]"
      "rest (lexer p) = [] @ CHR '':'' # (CHR '' '' # serialise v (ind + 2) @ tl)"
    by (auto simp: advances_def)
  have ne: "type (currentToken p) \<noteq> RightBrace" using p(2) by simp
  have key: "take (length (lexeme (currentToken p)) - 2) (drop 1 (lexeme (currentToken p))) = k"
    using p(3) by simp
  from p(4) obtain p1 where p1: "Parser_advance p = Inr p1" "type (currentToken p1) = Colon"
      "rest (lexer p1) = [CHR '' ''] @ serialise v (ind + 2) @ tl"
    by (rule single_token [where ty = Colon]) simp_all
  have del: "delimited tl" by (simp add: tl_def delimited_def isdigit_nat isalpha_nat)
  have w1: "list_all is_ws [CHR '' '']" by simp
  from reads_valueD [OF rv p1(3) w1 del]
  obtain p2 q1 where p2: "Parser_advance p1 = Inr p2" "rest (lexer q1) = tl"
      "parseValue p2 = (case Parser_advance q1 of Inl e \<Rightarrow> Inl e | Inr p' \<Rightarrow> Inr (v, p'))"
    by blast
  show ?case
  proof (cases "m = []")
    case True
    have "rest (lexer q1) = (LF # replicate ind (CHR '' '')) @ CHR ''}'' # r"
      using p2(2) True by (simp add: tl_def)
    moreover have "list_all is_ws (LF # replicate ind (CHR '' ''))" by simp
    ultimately obtain p3 where p3: "Parser_advance q1 = Inr p3"
        "type (currentToken p3) = RightBrace" "rest (lexer p3) = r"
      by (rule single_token [where ty = RightBrace]) simp_all
    have "parseObjectLoop acc p = Inr (assign_all acc (e # m), p3)" for acc
      using p(2) key p1(1, 2) p2(1, 3) p3(1, 2) True e
      by (subst parseObjectLoop.simps) (simp add: consume_def assign_all_def)
    then show ?thesis using p(1) ne p3(2, 3) by blast
  next
    case False
    have "rest (lexer q1) = [] @ CHR '','' # ([LF] @ serialiseObject m ind
        @ replicate ind (CHR '' '') @ CHR ''}'' # r)"
      using p2(2) False by (simp add: tl_def)
    then obtain p3 where p3: "Parser_advance q1 = Inr p3" "type (currentToken p3) = Comma"
        "rest (lexer p3) = [LF] @ serialiseObject m ind @ replicate ind (CHR '' '') @ CHR ''}'' # r"
      by (rule single_token [where ty = Comma]) simp_all
    have "\<forall>e \<in> set m. reads_value (snd e)" using Cons.prems(1) by simp
    moreover have "\<forall>e \<in> set m. DQ \<notin> set (fst e) \<and> BS \<notin> set (fst e)"
      using Cons.prems(3) by simp
    ultimately obtain p4 q' where p4: "Parser_advance p3 = Inr p4" "rest (lexer q') = r"
        "type (currentToken q') = RightBrace"
        "\<And>acc. parseObjectLoop acc p4 = Inr (assign_all acc m, q')"
      using Cons.IH [OF _ False _ p3(3)] by auto
    have "parseObjectLoop acc p = Inr (assign_all acc (e # m), q')" for acc
      using p(2) key p1(1, 2) p2(1, 3) p3(1, 2) p4(1) p4(4) [of "map_assign k v acc"] e
      by (subst parseObjectLoop.simps) (simp add: consume_def assign_all_Cons)
    then show ?thesis using p(1) ne p4(2, 3) by blast
  qed
qed

text \<open>Entries whose keys increase are appended one after the other.\<close>

lemma map_assign_append:
  "\<forall>e \<in> set acc. fst e < k \<Longrightarrow> map_assign k v acc = acc @ [(k, v)]"
  by (induction acc) auto

lemma assign_all_sorted:
  "sorted_wrt (<) (map fst (acc @ m)) \<Longrightarrow> assign_all acc m = acc @ m"
proof (induction m arbitrary: acc)
  case Nil
  then show ?case by (simp add: assign_all_def)
next
  case (Cons e m)
  obtain k v where e: "e = (k, v)" by (cases e)
  have "\<forall>a \<in> set acc. fst a < k" using Cons.prems e by (auto simp: sorted_wrt_append)
  then have "map_assign k v acc = acc @ [(k, v)]" by (rule map_assign_append)
  moreover have "sorted_wrt (<) (map fst ((acc @ [(k, v)]) @ m))" using Cons.prems e by simp
  ultimately show ?case using Cons.IH [of "acc @ [(k, v)]"] e by (simp add: assign_all_Cons)
qed

lemma reads_Object:
  assumes "\<forall>e \<in> set m. reads_value (snd e)"
    and "\<forall>e \<in> set m. DQ \<notin> set (fst e) \<and> BS \<notin> set (fst e)"
    and "sorted_wrt (<) (map fst m)"
  shows "reads_value (JObject m)"
proof (rule reads_valueI)
  fix q :: Parser and ws ind r
  assume a: "rest (lexer q) = ws @ serialise (JObject m) ind @ r" "list_all is_ws ws" "delimited r"
  have "rest (lexer q) = ws @ CHR ''{'' # ([LF] @ serialiseObject m ind
      @ replicate ind (CHR '' '') @ CHR ''}'' # r)"
    using a(1) by simp
  then obtain p where p: "Parser_advance q = Inr p" "type (currentToken p) = LeftBrace"
      "rest (lexer p) = [LF] @ serialiseObject m ind @ replicate ind (CHR '' '') @ CHR ''}'' # r"
    using a(2) by (rule single_token [where ty = LeftBrace]) simp_all
  have "\<exists>q'. rest (lexer q') = r
      \<and> parseObject p = (case Parser_advance q' of Inl e \<Rightarrow> Inl e | Inr p' \<Rightarrow> Inr (m, p'))"
  proof (cases "m = []")
    case True
    have "rest (lexer p) = (LF # replicate ind (CHR '' '')) @ CHR ''}'' # r"
      using p(3) True by simp
    moreover have "list_all is_ws (LF # replicate ind (CHR '' ''))" by simp
    ultimately obtain p1 where p1: "Parser_advance p = Inr p1"
        "type (currentToken p1) = RightBrace" "rest (lexer p1) = r"
      by (rule single_token [where ty = RightBrace]) simp_all
    have "parseObject p = (case Parser_advance p1 of Inl e \<Rightarrow> Inl e | Inr p' \<Rightarrow> Inr (m, p'))"
      using p(2) p1(1, 2) True
      by (subst parseObject.simps) (simp add: consume_def split: sum.splits)
    then show ?thesis using p1(3) by blast
  next
    case False
    from object_loop [OF assms(1) False assms(2) p(3)]
    obtain p1 q' where p1: "Parser_advance p = Inr p1" "type (currentToken p1) \<noteq> RightBrace"
        "rest (lexer q') = r" "type (currentToken q') = RightBrace"
        "\<And>acc. parseObjectLoop acc p1 = Inr (assign_all acc m, q')"
      by auto
    have "assign_all [] m = m" using assign_all_sorted [of "[]" m] assms(3) by simp
    then have "parseObject p = (case Parser_advance q' of Inl e \<Rightarrow> Inl e | Inr p' \<Rightarrow> Inr (m, p'))"
      using p(2) p1(1, 2, 4) p1(5) [of "[]"]
      by (subst parseObject.simps) (simp add: consume_def split: sum.splits)
    then show ?thesis using p1(3) by blast
  qed
  then obtain q' where q': "rest (lexer q') = r"
      "parseObject p = (case Parser_advance q' of Inl e \<Rightarrow> Inl e | Inr p' \<Rightarrow> Inr (m, p'))"
    by blast
  have "parseValue p
      = (case Parser_advance q' of Inl e \<Rightarrow> Inl e | Inr p' \<Rightarrow> Inr (JObject m, p'))"
    using p(2) q'(2) by (subst parseValue.simps) (simp split: sum.splits)
  then have "then_advance (parseValue p) (JObject m) r"
    unfolding then_advance_def using q'(1) by blast
  then show "\<exists>p. Parser_advance q = Inr p \<and> type (currentToken p) \<noteq> RightBracket
      \<and> type (currentToken p) \<noteq> RightBrace \<and> then_advance (parseValue p) (JObject m) r"
    using p(1, 2) by auto
qed

text \<open>
  \<open>plain v\<close>: the strings and the keys of \<open>v\<close> hold no double quote and no backslash, its
  numbers are \<open>exact\<close>, and it is \<open>ordered\<close>, as every \<^verbatim>\<open>std::map\<close> is.
\<close>

fun plain :: "JsonValue \<Rightarrow> bool" where
  "plain JNull = True"
| "plain (JBool b) = True"
| "plain (JNumber d) = exact d"
| "plain (JString s) = (DQ \<notin> set s \<and> BS \<notin> set s)"
| "plain (JArray xs) = (\<forall>x \<in> set xs. plain x)"
| "plain (JObject m) =
     (sorted_wrt (<) (map fst m)
      \<and> (\<forall>e \<in> set m. DQ \<notin> set (fst e) \<and> BS \<notin> set (fst e) \<and> plain (snd e)))"

subsection \<open>The text of a number\<close>

lemma isdigit_digit_char: "0 \<le> n \<Longrightarrow> n < 10 \<Longrightarrow> isdigit (digit_char n)"
proof -
  assume n: "0 \<le> n" "n < 10"
  have "list_all (\<lambda>k. isdigit (digit_char k)) [0..9]" by code_simp
  moreover have "n \<in> set [0..9]" using n by simp
  ultimately show ?thesis unfolding list_all_iff by blast
qed

lemma decimal_digits: "0 \<le> n \<Longrightarrow> decimal n \<noteq> [] \<and> list_all isdigit (decimal n)"
proof (induction n rule: decimal.induct)
  case (1 n)
  show ?case
  proof (cases "n < 10")
    case True
    then show ?thesis
      using "1.prems" isdigit_digit_char [of n] by (subst (1 2) decimal.simps) simp
  next
    case False
    have "0 \<le> n div 10" using "1.prems" by simp
    then have "list_all isdigit (decimal (n div 10))" using "1.IH" False by simp
    moreover have "isdigit (digit_char (n mod 10))" by (rule isdigit_digit_char) simp_all
    ultimately show ?thesis using False by (subst (1 2) decimal.simps) simp
  qed
qed

lemma exponent_digits_digits:
  "exponent_digits n \<noteq> [] \<and> list_all isdigit (exponent_digits n)"
  using decimal_digits [of "int n"]
  by (simp add: exponent_digits_def to_string_def isdigit_nat)

lemma fraction_part_fraction: "list_all isdigit fs \<Longrightarrow> fraction_part (fraction fs)"
proof -
  assume a: "list_all isdigit fs"
  have "set (rev (dropWhile (\<lambda>c. c = CHR ''0'') (rev fs))) \<subseteq> set fs"
    using set_dropWhileD [of _ "\<lambda>c. c = CHR ''0''" "rev fs"] by auto
  then have "list_all isdigit (rev (dropWhile (\<lambda>c. c = CHR ''0'') (rev fs)))"
    using a unfolding list_all_iff by blast
  then show ?thesis by (simp add: fraction_def fraction_part_def Let_def)
qed

lemma round_half_even_nonneg: "0 \<le> r \<Longrightarrow> 0 \<le> round_half_even r"
proof -
  assume "0 \<le> r"
  then have "0 \<le> \<lfloor>r\<rfloor>" by simp
  then show ?thesis by (simp add: round_half_even_def Let_def)
qed

lemma scale_nonneg: "0 \<le> a \<Longrightarrow> 0 < b \<Longrightarrow> 0 \<le> scale b a k"
  by (simp add: scale_def)

text \<open>\<open>digits_shape\<close>: what \<^verbatim>\<open>%g\<close> writes for a positive number.\<close>

definition digits_shape :: "string \<Rightarrow> bool" where
  "digits_shape s =
     (\<exists>c ip fp ex. s = c # ip @ fp @ ex \<and> isdigit c
        \<and> list_all isdigit ip \<and> fraction_part fp \<and> exponent_part ex)"

lemma digits_shapeI:
  "s = c # ip @ fp @ ex \<Longrightarrow> isdigit c \<Longrightarrow> list_all isdigit ip \<Longrightarrow> fraction_part fp \<Longrightarrow>
     exponent_part ex \<Longrightarrow> digits_shape s"
  unfolding digits_shape_def by blast

lemma show_double_shape: "number_shape (show_double d)"
proof (cases "d = 0")
  case True
  have "show_double d = CHR ''0'' # [] @ [] @ []" using True by (simp add: show_double_def)
  then show ?thesis
    unfolding number_shape_def
    by (intro exI [of _ "CHR ''0''"] exI [of _ "[]"])
       (simp add: isdigit_nat fraction_part_def exponent_part_def)
next
  case False
  define a where "a = \<bar>d\<bar>"
  define x0 where "x0 = ilog 10 a"
  define m0 where "m0 = round_half_even (scale 10 a (5 - x0))"
  define x where "x = (if m0 = 1000000 then x0 + 1 else x0)"
  define ds where "ds = decimal (if m0 = 1000000 then 100000 else m0)"
  define body where "body =
     (if x < - 4 \<or> 6 \<le> x then
        take 1 ds @ fraction (drop 1 ds) @
          CHR ''e'' # (if x < 0 then CHR ''-'' else CHR ''+'') # exponent_digits (nat \<bar>x\<bar>)
      else if 0 \<le> x then take (nat x + 1) ds @ fraction (drop (nat x + 1) ds)
      else CHR ''0'' # fraction (replicate (nat (- x) - 1) (CHR ''0'') @ ds))"
  have sd: "show_double d = (if d < 0 then [CHR ''-''] else []) @ body"
    using False
    by (simp only: show_double_def Let_def a_def x0_def m0_def x_def ds_def body_def if_False)
  have "0 \<le> m0" unfolding m0_def
    by (intro round_half_even_nonneg scale_nonneg) (simp_all add: a_def)
  then have "0 \<le> (if m0 = 1000000 then 100000 else m0)" by simp
  then have ds: "ds \<noteq> []" "list_all isdigit ds" unfolding ds_def using decimal_digits by blast+
  obtain c cs where cs: "ds = c # cs" "isdigit c" "list_all isdigit cs"
    using ds by (cases ds) auto
  have zero: "isdigit (CHR ''0'')" by (simp add: isdigit_nat)
  have ee: "exponent_part []" by (simp add: exponent_part_def)
  have "digits_shape body"
  proof (cases "x < - 4 \<or> 6 \<le> x")
    case True
    then have b: "body = c # [] @ fraction cs
        @ (CHR ''e'' # (if x < 0 then CHR ''-'' else CHR ''+'') # exponent_digits (nat \<bar>x\<bar>))"
      using cs(1) by (simp add: body_def)
    have e: "exponent_part
        (CHR ''e'' # (if x < 0 then CHR ''-'' else CHR ''+'') # exponent_digits (nat \<bar>x\<bar>))"
      using exponent_partI [of "CHR ''e''" "[if x < 0 then CHR ''-'' else CHR ''+'']"
          "exponent_digits (nat \<bar>x\<bar>)"] exponent_digits_digits [of "nat \<bar>x\<bar>"]
      by simp
    show ?thesis
      by (rule digits_shapeI [OF b cs(2) _ fraction_part_fraction [OF cs(3)] e]) simp
  next
    case False
    show ?thesis
    proof (cases "0 \<le> x")
      case True
      have b: "body = c # take (nat x) cs @ fraction (drop (nat x) cs) @ []"
        using True False cs(1) by (simp add: body_def)
      have l: "list_all isdigit (take (nat x) cs)" "list_all isdigit (drop (nat x) cs)"
        using cs(3) unfolding list_all_iff by (auto dest: in_set_takeD in_set_dropD)
      show ?thesis
        by (rule digits_shapeI [OF b cs(2) l(1) fraction_part_fraction [OF l(2)] ee])
    next
      case neg: False
      have b: "body = CHR ''0'' # [] @ fraction (replicate (nat (- x) - 1) (CHR ''0'') @ ds) @ []"
        using neg False by (simp add: body_def)
      have l: "list_all isdigit (replicate (nat (- x) - 1) (CHR ''0'') @ ds)"
        using ds(2) zero by (auto simp: list_all_iff)
      show ?thesis
        by (rule digits_shapeI [OF b zero _ fraction_part_fraction [OF l] ee]) simp
    qed
  qed
  then obtain c ip fp ex where b: "body = c # ip @ fp @ ex" "isdigit c" "list_all isdigit ip"
      "fraction_part fp" "exponent_part ex"
    unfolding digits_shape_def by blast
  show ?thesis
  proof (cases "d < 0")
    case True
    then have "show_double d = CHR ''-'' # (c # ip) @ fp @ ex" using sd b(1) by simp
    then show ?thesis
      unfolding number_shape_def using b(2-5)
      by (intro exI [of _ "CHR ''-''"] exI [of _ "c # ip"] exI [of _ fp] exI [of _ ex]) simp
  next
    case False
    then have "show_double d = c # ip @ fp @ ex" using sd b(1) by simp
    then show ?thesis
      unfolding number_shape_def using b(2-5)
      by (intro exI [of _ c] exI [of _ ip] exI [of _ fp] exI [of _ ex]) simp
  qed
qed

subsection \<open>Every plain value is read back\<close>

lemma reads_plain: "plain v \<Longrightarrow> reads_value v"
proof (induction v)
  case JNull
  show ?case by (rule reads_Null)
next
  case (JBool b)
  show ?case by (rule reads_Bool)
next
  case (JNumber d)
  then show ?case using reads_Number [OF _ show_double_shape] by simp
next
  case (JString s)
  then show ?case using reads_String by simp
next
  case (JArray xs)
  then show ?case by (intro reads_Array) auto
next
  case (JObject m)
  have "\<forall>e \<in> set m. reads_value (snd e)"
  proof
    fix e assume e: "e \<in> set m"
    then have "plain (snd e)" using JObject.prems by simp
    moreover have "snd e \<in> Basic_BNFs.snds e" by (cases e) simp
    ultimately show "reads_value (snd e)" using JObject.IH [OF e] by blast
  qed
  then show ?case using JObject.prems by (intro reads_Object) auto
qed

text \<open>\<^verbatim>\<open>parse\<close> on the text of a plain value and a text \<open>r\<close> after it: the value, unless the
  \<^verbatim>\<open>advance\<close> that reads the first token of \<open>r\<close> fails.\<close>

lemma serialise_hd: "serialise v ind \<noteq> [] \<and> hd (serialise v ind) \<noteq> CHR 0xEF"
proof (cases v)
  case (JNumber d)
  obtain c ip fp ex where sh: "show_double d = c # ip @ fp @ ex" "isdigit c \<or> c = CHR ''-''"
    using show_double_shape [of d] unfolding number_shape_def by blast
  have "c \<noteq> CHR 0xEF" using sh(2) by (auto simp: isdigit_nat)
  then show ?thesis using JNumber sh(1) by simp
qed auto

lemma parse_serialise_then:
  assumes "plain v" "delimited r"
  shows "\<exists>q'. rest (lexer q') = r
    \<and> parse (serialise v 0 @ r)
        = (case Parser_advance q' of Inl e \<Rightarrow> Inl e | Inr p' \<Rightarrow> Inr v)"
proof -
  define src where "src = serialise v 0 @ r"
  have nb: "src = [] \<or> hd src \<noteq> CHR 0xEF" using serialise_hd [of v 0] by (simp add: src_def)
  have r0: "rest (lexer (parser0 src)) = [] @ serialise v 0 @ r" by (simp add: src_def)
  have w0: "list_all is_ws []" by simp
  from reads_valueD [OF reads_plain [OF assms(1)] r0 w0 assms(2)]
  obtain p q' where p: "Parser_advance (parser0 src) = Inr p" "rest (lexer q') = r"
      "parseValue p = (case Parser_advance q' of Inl e \<Rightarrow> Inl e | Inr p' \<Rightarrow> Inr (v, p'))"
    by blast
  have "parse src = (case Parser_advance q' of Inl e \<Rightarrow> Inl e | Inr p' \<Rightarrow> Inr v)"
    using p(1, 3) by (simp add: parse_no_bom [OF nb] split: sum.splits)
  then show ?thesis using p(2) unfolding src_def by blast
qed

subsection \<open>The next token depends only on the text in front of the Lexer\<close>

lemma peekNext_rest:
  "peekNext l = (case rest l of [] \<Rightarrow> NUL | c # cs \<Rightarrow> (case cs of [] \<Rightarrow> NUL | d # ds \<Rightarrow> d))"
  by (cases "rest l"; cases "tl (rest l)") (auto simp: neq_Nil_conv)

lemma rest_adv_tl: "rest (adv l) = tl (rest l)"
  by (cases "rest l") simp_all

lemma same_rest:
  assumes "rest l = rest l'"
  shows "peek l = peek l'" "peekNext l = peekNext l'" "isAtEnd l = isAtEnd l'"
    "rest (adv l) = rest (adv l')" "rest (newline l) = rest (newline l')"
  using assms by (simp_all add: peek_rest peekNext_rest isAtEnd_rest rest_adv_tl)

lemma rest_skipLineComment:
  "rest l = rest l' \<Longrightarrow> rest (skipLineComment l) = rest (skipLineComment l')"
proof (induction l arbitrary: l' rule: skipLineComment.induct)
  case (1 l)
  note s = same_rest [OF "1.prems"]
  show ?case
  proof (cases "peek l \<noteq> LF \<and> \<not> isAtEnd l")
    case True
    then have c': "peek l' \<noteq> LF \<and> \<not> isAtEnd l'" using s by simp
    have "rest (skipLineComment (adv l)) = rest (skipLineComment (adv l'))"
      using "1.IH" [OF True s(4)] .
    moreover have "skipLineComment l = skipLineComment (adv l)"
      using True by (subst skipLineComment.simps) simp
    moreover have "skipLineComment l' = skipLineComment (adv l')"
      using c' by (subst skipLineComment.simps) simp
    ultimately show ?thesis by simp
  next
    case False
    then have c': "\<not> (peek l' \<noteq> LF \<and> \<not> isAtEnd l')" using s by simp
    have "skipLineComment l = l" using False by (subst skipLineComment.simps) auto
    moreover have "skipLineComment l' = l'" using c' by (subst skipLineComment.simps) auto
    ultimately show ?thesis using "1.prems" by simp
  qed
qed

lemma rest_skipBlockComment:
  "rest l = rest l' \<Longrightarrow> rest (skipBlockComment l) = rest (skipBlockComment l')"
proof (induction l arbitrary: l' rule: skipBlockComment.induct)
  case (1 l)
  note s = same_rest [OF "1.prems"]
  show ?case
  proof (cases "(peek l \<noteq> CHR ''*'' \<or> peekNext l \<noteq> CHR ''/'') \<and> \<not> isAtEnd l")
    case True
    then have c': "(peek l' \<noteq> CHR ''*'' \<or> peekNext l' \<noteq> CHR ''/'') \<and> \<not> isAtEnd l'"
      using s by simp
    define m where "m = adv (if peek l = LF then newline l else l)"
    define m' where "m' = adv (if peek l' = LF then newline l' else l')"
    have "rest m = rest m'" using "1.prems" s(1) by (simp add: m_def m'_def rest_adv_tl)
    then have "rest (skipBlockComment m) = rest (skipBlockComment m')"
      using "1.IH" [OF True] unfolding m_def by blast
    moreover have "skipBlockComment l = skipBlockComment m"
      unfolding m_def using True by (subst skipBlockComment.simps) simp
    moreover have "skipBlockComment l' = skipBlockComment m'"
      unfolding m'_def using c' by (subst skipBlockComment.simps) simp
    ultimately show ?thesis by simp
  next
    case False
    then have c': "\<not> ((peek l' \<noteq> CHR ''*'' \<or> peekNext l' \<noteq> CHR ''/'') \<and> \<not> isAtEnd l')"
      using s by simp
    have "skipBlockComment l = l" using False by (subst skipBlockComment.simps) auto
    moreover have "skipBlockComment l' = l'" using c' by (subst skipBlockComment.simps) auto
    ultimately show ?thesis using "1.prems" by simp
  qed
qed

lemma rest_blockComment:
  assumes "rest l = rest l'"
  shows "rest (blockComment l) = rest (blockComment l')"
proof -
  define m where "m = skipBlockComment (adv (adv l))"
  define m' where "m' = skipBlockComment (adv (adv l'))"
  have "rest (adv (adv l)) = rest (adv (adv l'))" using assms by (simp add: rest_adv_tl)
  then have r: "rest m = rest m'" unfolding m_def m'_def by (rule rest_skipBlockComment)
  define n where "n = (if \<not> isAtEnd m then adv m else m)"
  define n' where "n' = (if \<not> isAtEnd m' then adv m' else m')"
  have rn: "rest n = rest n'" using r by (simp add: n_def n'_def isAtEnd_rest rest_adv_tl)
  have e: "rest (if \<not> isAtEnd n then adv n else n) = rest (if \<not> isAtEnd n' then adv n' else n')"
    using rn by (simp add: isAtEnd_rest rest_adv_tl)
  have "blockComment l = (if \<not> isAtEnd n then adv n else n)"
    by (simp only: blockComment_def Let_def m_def n_def)
  moreover have "blockComment l' = (if \<not> isAtEnd n' then adv n' else n')"
    by (simp only: blockComment_def Let_def m'_def n'_def)
  ultimately show ?thesis using e by (simp only:)
qed

lemma rest_skipWhitespaceAndComments:
  "rest l = rest l' \<Longrightarrow>
     rest (skipWhitespaceAndComments l) = rest (skipWhitespaceAndComments l')"
proof (induction l arbitrary: l' rule: skipWhitespaceAndComments.induct)
  case (1 l)
  note s = same_rest [OF "1.prems"]
  consider (ws) "peek l = CHR '' '' \<or> peek l = CR \<or> peek l = TAB"
    | (lf) "\<not> (peek l = CHR '' '' \<or> peek l = CR \<or> peek l = TAB)" "peek l = LF"
    | (line) "peek l = CHR ''/''" "peekNext l = CHR ''/''"
    | (block) "peek l = CHR ''/''" "peekNext l \<noteq> CHR ''/''" "peekNext l = CHR ''*''"
    | (other) "\<not> (peek l = CHR '' '' \<or> peek l = CR \<or> peek l = TAB)" "peek l \<noteq> LF"
        "peek l = CHR ''/'' \<longrightarrow> peekNext l \<noteq> CHR ''/'' \<and> peekNext l \<noteq> CHR ''*''"
    by blast
  then show ?case
  proof cases
    case ws
    have "skipWhitespaceAndComments l = skipWhitespaceAndComments (adv l)"
      using ws by (subst skipWhitespaceAndComments.simps) (auto simp: Let_def)
    moreover have "skipWhitespaceAndComments l' = skipWhitespaceAndComments (adv l')"
      using ws s(1) by (subst skipWhitespaceAndComments.simps) (auto simp: Let_def)
    moreover have "rest (skipWhitespaceAndComments (adv l))
        = rest (skipWhitespaceAndComments (adv l'))"
      by (rule "1.IH"(1) [OF refl ws s(4)])
    ultimately show ?thesis by simp
  next
    case lf
    have "skipWhitespaceAndComments l = skipWhitespaceAndComments (newline (adv l))"
      using lf by (subst skipWhitespaceAndComments.simps) (auto simp: Let_def)
    moreover have "skipWhitespaceAndComments l' = skipWhitespaceAndComments (newline (adv l'))"
      using lf s(1) by (subst skipWhitespaceAndComments.simps) (auto simp: Let_def)
    moreover have "rest (newline (adv l)) = rest (newline (adv l'))" using s(4) by simp
    then have "rest (skipWhitespaceAndComments (newline (adv l)))
        = rest (skipWhitespaceAndComments (newline (adv l')))"
      by (rule "1.IH"(2) [OF refl lf])
    ultimately show ?thesis by simp
  next
    case line
    have "skipWhitespaceAndComments l = skipWhitespaceAndComments (skipLineComment l)"
      using line by (subst skipWhitespaceAndComments.simps) (auto simp: Let_def)
    moreover have "skipWhitespaceAndComments l' = skipWhitespaceAndComments (skipLineComment l')"
      using line s(1, 2) by (subst skipWhitespaceAndComments.simps) (auto simp: Let_def)
    moreover have nw: "\<not> (peek l = CHR '' '' \<or> peek l = CR \<or> peek l = TAB)" "peek l \<noteq> LF"
      using line(1) by simp_all
    have "rest (skipLineComment l) = rest (skipLineComment l')"
      by (rule rest_skipLineComment [OF "1.prems"])
    then have "rest (skipWhitespaceAndComments (skipLineComment l))
        = rest (skipWhitespaceAndComments (skipLineComment l'))"
      by (rule "1.IH"(3) [OF refl nw line])
    ultimately show ?thesis by simp
  next
    case block
    have "skipWhitespaceAndComments l = skipWhitespaceAndComments (blockComment l)"
      using block by (subst skipWhitespaceAndComments.simps) (auto simp: Let_def)
    moreover have "skipWhitespaceAndComments l' = skipWhitespaceAndComments (blockComment l')"
      using block s(1, 2) by (subst skipWhitespaceAndComments.simps) (auto simp: Let_def)
    moreover have nw: "\<not> (peek l = CHR '' '' \<or> peek l = CR \<or> peek l = TAB)" "peek l \<noteq> LF"
      using block(1) by simp_all
    have "rest (blockComment l) = rest (blockComment l')"
      by (rule rest_blockComment [OF "1.prems"])
    then have "rest (skipWhitespaceAndComments (blockComment l))
        = rest (skipWhitespaceAndComments (blockComment l'))"
      by (rule "1.IH"(4) [OF refl nw block])
    ultimately show ?thesis by simp
  next
    case other
    have "skipWhitespaceAndComments l = l"
      using other by (subst skipWhitespaceAndComments.simps) (auto simp: Let_def)
    moreover have "skipWhitespaceAndComments l' = l'"
      using other s(1, 2) by (subst skipWhitespaceAndComments.simps) (auto simp: Let_def)
    ultimately show ?thesis using "1.prems" by simp
  qed
qed

text \<open>The type of the token that starts a text.\<close>

definition token_type_at :: "string \<Rightarrow> TokenType" where
  "token_type_at r =
     (case r of
        [] \<Rightarrow> EndOfFile
      | c # cs \<Rightarrow>
          if c = CHR ''{'' then LeftBrace
          else if c = CHR ''}'' then RightBrace
          else if c = CHR ''['' then LeftBracket
          else if c = CHR '']'' then RightBracket
          else if c = CHR '','' then Comma
          else if c = CHR '':'' then Colon
          else if c = DQ then (case closing_quote cs of None \<Rightarrow> Unknown | Some n \<Rightarrow> String)
          else if isdigit c \<or> c = CHR ''-'' then Number
          else if isalpha c then
            (let w = c # takeWhile isalpha cs
             in if w = ''true'' then TrueTok else if w = ''false'' then FalseTok
                else if w = ''null'' then NullTok else Unknown)
          else Unknown)"

lemma type_numberToken: "type (fst (numberToken l)) = Number"
proof -
  have "fst (numberToken l) = makeToken (snd (numberToken l)) Number"
    by (simp only: numberToken_def Let_def fst_conv snd_conv)
  then show ?thesis by (simp add: makeToken_def)
qed

lemma type_makeToken [simp]: "type (makeToken l ty) = ty"
  by (simp add: makeToken_def)

lemma type_scanToken_Cons:
  assumes "rest l1 = c # cs"
  shows "type (fst (scanToken l1)) =
     (if c = CHR ''{'' then LeftBrace
      else if c = CHR ''}'' then RightBrace
      else if c = CHR ''['' then LeftBracket
      else if c = CHR '']'' then RightBracket
      else if c = CHR '','' then Comma
      else if c = CHR '':'' then Colon
      else if c = DQ then type (fst (stringToken (adv l1)))
      else if isdigit c \<or> c = CHR ''-'' then Number
      else if isalpha c then type (fst (identifierToken (adv l1)))
      else Unknown)"
proof -
  have "scanToken l1 =
     (if c = CHR ''{'' then (makeToken (adv l1) LeftBrace, adv l1)
      else if c = CHR ''}'' then (makeToken (adv l1) RightBrace, adv l1)
      else if c = CHR ''['' then (makeToken (adv l1) LeftBracket, adv l1)
      else if c = CHR '']'' then (makeToken (adv l1) RightBracket, adv l1)
      else if c = CHR '','' then (makeToken (adv l1) Comma, adv l1)
      else if c = CHR '':'' then (makeToken (adv l1) Colon, adv l1)
      else if c = DQ then stringToken (adv l1)
      else if isdigit c \<or> c = CHR ''-'' then numberToken (adv l1)
      else if isalpha c then identifierToken (adv l1)
      else (makeToken (adv l1) Unknown, adv l1))"
    using assms fst_Lexer_advance [OF assms]
    by (simp add: scanToken_def isAtEnd_rest Let_def split del: if_split cong: if_cong)
  then show ?thesis
    by (simp add: type_numberToken if_distrib [of "\<lambda>x. type (fst x)"] split del: if_split
        cong: if_cong)
qed

lemma token_type_at_Cons:
  "token_type_at (c # cs) =
     (if c = CHR ''{'' then LeftBrace
      else if c = CHR ''}'' then RightBrace
      else if c = CHR ''['' then LeftBracket
      else if c = CHR '']'' then RightBracket
      else if c = CHR '','' then Comma
      else if c = CHR '':'' then Colon
      else if c = DQ then (case closing_quote cs of None \<Rightarrow> Unknown | Some n \<Rightarrow> String)
      else if isdigit c \<or> c = CHR ''-'' then Number
      else if isalpha c then
        (let w = c # takeWhile isalpha cs
         in if w = ''true'' then TrueTok else if w = ''false'' then FalseTok
            else if w = ''null'' then NullTok else Unknown)
      else Unknown)"
  by (simp only: token_type_at_def list.case)

lemma type_stringToken:
  assumes "rest l0 = DQ # cs"
  shows "type (fst (stringToken (adv (mark l0))))
    = (case closing_quote cs of None \<Rightarrow> Unknown | Some n \<Rightarrow> String)"
proof -
  have rm: "rest (mark l0) = DQ # cs" using assms by simp
  have s: "scanToken (mark l0) = stringToken (adv (mark l0))"
    using rm fst_Lexer_advance [OF rm] by (simp add: scanToken_def isAtEnd_rest Let_def)
  show ?thesis
  proof (cases "closing_quote cs")
    case None
    obtain l' where "scanToken (mark l0) = (\<lparr>type = Unknown, lexeme = ''Unterminated string.'',
           line = lineNum l0, col = colNum l0\<rparr>, l')"
      using scanToken_unterminated [OF assms None] by blast
    then show ?thesis using s None by simp
  next
    case (Some n)
    obtain l' where "scanToken (mark l0)
      = (\<lparr>type = String, lexeme = DQ # take n cs @ [DQ], line = lineNum l0, col = colNum l0\<rparr>, l')"
      using scanToken_String [OF assms Some] by blast
    then show ?thesis using s Some by simp
  qed
qed

lemma type_identifierToken:
  assumes "rest l0 = c # cs" "isalpha c"
  shows "type (fst (identifierToken (adv (mark l0))))
    = (let w = c # takeWhile isalpha cs
       in if w = ''true'' then TrueTok else if w = ''false'' then FalseTok
          else if w = ''null'' then NullTok else Unknown)"
proof -
  have rm: "rest (mark l0) = c # cs" using assms by simp
  have "type (fst (scanToken (mark l0))) = type (fst (identifierToken (adv (mark l0))))"
    using type_scanToken_Cons [OF rm] isalpha_other [OF assms(2)] assms(2) by simp
  moreover obtain l' where "scanToken (mark l0)
      = (\<lparr>type = (if c # takeWhile isalpha cs = ''true'' then TrueTok
                  else if c # takeWhile isalpha cs = ''false'' then FalseTok
                  else if c # takeWhile isalpha cs = ''null'' then NullTok else Unknown),
           lexeme = c # takeWhile isalpha cs, line = lineNum l0, col = colNum l0\<rparr>, l')"
    using scanToken_identifier [OF assms] by blast
  ultimately show ?thesis by (simp only: Let_def fst_conv Token.simps)
qed

lemma type_scanToken: "type (fst (scanToken (mark l0))) = token_type_at (rest l0)"
proof (cases "rest l0")
  case Nil
  then show ?thesis using scanToken_EndOfFile [OF Nil] by (simp add: token_type_at_def)
next
  case (Cons c cs)
  have rm: "rest (mark l0) = c # cs" using Cons by simp
  have s: "c = DQ \<Longrightarrow> type (fst (stringToken (adv (mark l0))))
      = (case closing_quote cs of None \<Rightarrow> Unknown | Some n \<Rightarrow> String)"
    using type_stringToken [of l0 cs] Cons by simp
  have i: "isalpha c \<Longrightarrow> type (fst (identifierToken (adv (mark l0))))
      = (let w = c # takeWhile isalpha cs
         in if w = ''true'' then TrueTok else if w = ''false'' then FalseTok
            else if w = ''null'' then NullTok else Unknown)"
    by (rule type_identifierToken [OF Cons])
  show ?thesis
    unfolding Cons token_type_at_Cons type_scanToken_Cons [OF rm]
    using s i by (simp split del: if_split cong: if_cong)
qed

text \<open>\<open>next_token_type r\<close>: the type of the token that \<^verbatim>\<open>nextToken\<close> returns on the text \<open>r\<close>.\<close>

definition next_token_type :: "string \<Rightarrow> TokenType" where
  "next_token_type r = type (fst (nextToken (Lexer_init r)))"

lemma type_nextToken:
  assumes "rest l = r"
  shows "type (fst (nextToken l)) = next_token_type r"
proof -
  have "rest l = rest (Lexer_init r)" using assms by simp
  then have "rest (skipWhitespaceAndComments l) = rest (skipWhitespaceAndComments (Lexer_init r))"
    by (rule rest_skipWhitespaceAndComments)
  then show ?thesis
    by (simp add: next_token_type_def nextToken_scanToken type_scanToken)
qed

lemma Parser_advance_next:
  assumes "rest (lexer q) = r"
  shows "next_token_type r \<noteq> Unknown \<Longrightarrow> \<exists>p. Parser_advance q = Inr p"
    and "next_token_type r = Unknown \<Longrightarrow> \<exists>lnum cnum. Parser_advance q
      = Inl (ParsingError ''Unexpected character or unterminated literal'' lnum cnum)"
  using type_nextToken [OF assms]
  by (auto simp: Parser_advance_def Let_def split: prod.splits)

subsection \<open>String literals with escapes, and the tokens that close a container\<close>

lemma parseString_lexeme:
  assumes "lexeme (currentToken p) = DQ # s @ [DQ]"
  shows "parseString p
    = (case Parser_advance p of Inl e \<Rightarrow> Inl e | Inr p' \<Rightarrow> Inr (JString (decode s), p'))"
  using assms parseStringLoop_lexeme [of s] by (simp add: parseString_def)

lemma parse_string_literal:
  assumes "closing_quote (s @ [DQ]) = Some (length s)"
  shows "parse (DQ # s @ [DQ]) = Inr (JString (decode s))"
proof -
  have r: "rest (lexer (parser0 (DQ # s @ [DQ]))) = [] @ DQ # (s @ [DQ])" by simp
  have w: "list_all is_ws []" by simp
  from advances_String [OF r w assms]
  obtain p where p: "advances (parser0 (DQ # s @ [DQ])) String (DQ # s @ [DQ]) [] p" by auto
  then have "rest (lexer p) = []" by (simp add: advances_def)
  then obtain p' where p': "Parser_advance p = Inr p'"
    using advances_EndOfFile [of p "[]"] by (auto simp: advances_def)
  have "parseValue p = Inr (JString (decode s), p')"
    by (rule parseValue_String [OF p p'])
  moreover have "Parser_advance (parser0 (DQ # s @ [DQ])) = Inr p"
    using p by (simp add: advances_def)
  ultimately show ?thesis by (simp add: parse_no_bom)
qed

text \<open>A literal that holds each of the eight escapes and a Unicode escape.\<close>

definition all_escapes :: string where
  "all_escapes = [BS, DQ, BS, BS, BS, CHR ''/'', BS, CHR ''b'', BS, CHR ''f'', BS, CHR ''n'',
     BS, CHR ''r'', BS, CHR ''t'', BS, CHR ''u'', CHR ''0'', CHR ''0'', CHR ''4'', CHR ''1'']"

lemma parseValue_closer:
  assumes "type (currentToken p) = RightBracket \<or> type (currentToken p) = RightBrace"
  shows "parseValue p = Inl (ParsingError
      ''Expected a value (object, array, string, number, true, false, or null).''
      (line (currentToken p)) (col (currentToken p)))"
  using assms by (subst parseValue.simps) auto

text \<open>Two Parser states for examples: at the first element of an array that ends with
  \<^verbatim>\<open>,]\<close>, and at the first key of an object that ends with \<^verbatim>\<open>,}\<close>.\<close>

definition array_example :: Parser where
  "array_example = projr (Parser_init ''true,]'')"

definition object_example :: Parser where
  \<open>object_example = projr (Parser_init ''"a":null,}'')\<close>

subsection \<open>White space and comments between tokens\<close>

text \<open>\<open>blank g\<close>: the text \<open>g\<close> is made of white space, line comments that end with their line
  feed, and block comments that end with their \<^verbatim>\<open>*/\<close>.\<close>

inductive blank :: "string \<Rightarrow> bool" where
  blank_Nil: "blank []"
| blank_ws: "is_ws c \<Longrightarrow> blank g \<Longrightarrow> blank (c # g)"
| blank_line: "LF \<notin> set b \<Longrightarrow> blank g \<Longrightarrow> blank (''//'' @ b @ LF # g)"
| blank_block: "\<not> closes (b @ ''*'') \<Longrightarrow> blank g \<Longrightarrow> blank (''/*'' @ b @ ''*/'' @ g)"

lemma blank_spaces: "list_all is_ws ws \<Longrightarrow> blank ws"
  by (induction ws) (auto intro: blank.intros)

lemma blank_hd: "blank g \<Longrightarrow> g \<noteq> [] \<Longrightarrow> is_ws (hd g) \<or> hd g = CHR ''/''"
  by (induction rule: blank.induct) auto

lemma skipLineComment_line:
  "rest l = b @ LF # t \<Longrightarrow> LF \<notin> set b \<Longrightarrow> rest (skipLineComment l) = LF # t"
proof (induction b arbitrary: l)
  case Nil
  then have "skipLineComment l = l" by (subst skipLineComment.simps) simp
  then show ?case using Nil by simp
next
  case (Cons c b)
  then have r: "rest l = c # (b @ LF # t)" and c: "c \<noteq> LF" by auto
  have "skipLineComment l = skipLineComment (adv l)"
    using r c by (subst skipLineComment.simps) (simp add: isAtEnd_rest)
  moreover have "rest (skipLineComment (adv l)) = LF # t"
    using Cons.IH [of "adv l"] r Cons.prems(2) by simp
  ultimately show ?case by simp
qed

lemma skipBlockComment_closed:
  "rest l = b @ CHR ''*'' # CHR ''/'' # t \<Longrightarrow> \<not> closes (b @ ''*'') \<Longrightarrow>
     rest (skipBlockComment l) = CHR ''*'' # CHR ''/'' # t"
proof (induction b arbitrary: l)
  case Nil
  then have "skipBlockComment l = l" by (subst skipBlockComment.simps) simp
  then show ?case using Nil by simp
next
  case (Cons c b)
  then have r: "rest l = c # (b @ CHR ''*'' # CHR ''/'' # t)" by simp
  define l' where "l' = adv (if peek l = LF then newline l else l)"
  have r': "rest l' = b @ CHR ''*'' # CHR ''/'' # t" using r by (simp add: l'_def)
  have nc: "\<not> closes (b @ ''*'')" using Cons.prems(2) by (cases b) auto
  have "peek l \<noteq> CHR ''*'' \<or> peekNext l \<noteq> CHR ''/''"
    using r Cons.prems(2) by (cases b) auto
  then have "skipBlockComment l = skipBlockComment l'"
    unfolding l'_def using r by (subst skipBlockComment.simps) (simp add: isAtEnd_rest)
  then show ?case using Cons.IH [OF r' nc] by simp
qed

lemma blockComment_closed:
  assumes "rest l = ''/*'' @ b @ ''*/'' @ t" "\<not> closes (b @ ''*'')"
  shows "rest (blockComment l) = t"
proof -
  have "rest l = CHR ''/'' # CHR ''*'' # (b @ CHR ''*'' # CHR ''/'' # t)" using assms(1) by simp
  then have "rest (adv l) = CHR ''*'' # (b @ CHR ''*'' # CHR ''/'' # t)" by simp
  then have "rest (adv (adv l)) = b @ CHR ''*'' # CHR ''/'' # t" by simp
  then have "rest (skipBlockComment (adv (adv l))) = CHR ''*'' # CHR ''/'' # t"
    using assms(2) by (rule skipBlockComment_closed)
  then show ?thesis by (simp add: blockComment_def Let_def isAtEnd_rest)
qed

lemma blank_prefix:
  "blank g \<Longrightarrow> rest l = g @ r \<Longrightarrow>
     \<exists>l'. rest l' = r \<and> skipWhitespaceAndComments l = skipWhitespaceAndComments l'"
proof (induction arbitrary: l rule: blank.induct)
  case blank_Nil
  then show ?case by auto
next
  case (blank_ws c g)
  then have r: "rest l = c # (g @ r)" by simp
  define l1 where "l1 = (if c = LF then newline (adv l) else adv l)"
  have "skipWhitespaceAndComments l = skipWhitespaceAndComments l1"
    using r blank_ws.hyps(1) unfolding l1_def
    by (subst skipWhitespaceAndComments.simps) (auto simp: Let_def is_ws_def)
  moreover have "rest l1 = g @ r" using r by (simp add: l1_def)
  ultimately show ?case using blank_ws.IH [of l1] by auto
next
  case (blank_line b g)
  then have r: "rest l = (''//'' @ b) @ LF # (g @ r)" by simp
  define l1 where "l1 = skipLineComment l"
  define l2 where "l2 = newline (adv l1)"
  have r1: "rest l1 = LF # (g @ r)"
    unfolding l1_def using r blank_line.hyps(1)
    by (intro skipLineComment_line [of l "''//'' @ b" "g @ r"]) simp_all
  have "skipWhitespaceAndComments l = skipWhitespaceAndComments l1"
    unfolding l1_def using r by (subst skipWhitespaceAndComments.simps) (simp add: Let_def)
  moreover have "skipWhitespaceAndComments l1 = skipWhitespaceAndComments l2"
    unfolding l2_def using r1 by (subst skipWhitespaceAndComments.simps) (simp add: Let_def)
  moreover have "rest l2 = g @ r" using r1 by (simp add: l2_def)
  ultimately show ?case using blank_line.IH [of l2] by auto
next
  case (blank_block b g)
  then have r: "rest l = ''/*'' @ b @ ''*/'' @ (g @ r)" by simp
  have "skipWhitespaceAndComments l = skipWhitespaceAndComments (blockComment l)"
    using r by (subst skipWhitespaceAndComments.simps) (simp add: Let_def)
  moreover have "rest (blockComment l) = g @ r"
    by (rule blockComment_closed [OF r blank_block.hyps(1)])
  ultimately show ?case using blank_block.IH [of "blockComment l"] by auto
qed

text \<open>The \<^verbatim>\<open>advance\<close> of a Parser in front of blank text is that of a Parser in front of what
  follows the blank text.\<close>

lemma advance_blank:
  assumes "blank g" "rest (lexer q) = g @ r"
  obtains q' where "rest (lexer q') = r" "Parser_advance q = Parser_advance q'"
proof -
  obtain l' where l': "rest l' = r"
      "skipWhitespaceAndComments (lexer q) = skipWhitespaceAndComments l'"
    using blank_prefix [OF assms] by blast
  have "nextToken (lexer q) = nextToken l'" using l'(2) by (simp add: nextToken_scanToken)
  then have "Parser_advance q = Parser_advance (q\<lparr>lexer := l'\<rparr>)"
    by (simp add: Parser_advance_def)
  moreover have "rest (lexer (q\<lparr>lexer := l'\<rparr>)) = r" using l'(1) by simp
  ultimately show ?thesis using that by blast
qed

lemma delimited_blank:
  assumes "blank g" "c \<in> set '',]}:''"
  shows "delimited (g @ c # r)"
proof (cases g)
  case Nil
  then show ?thesis using assms(2) by (auto simp: delimited_def isdigit_nat isalpha_nat)
next
  case (Cons a g')
  then have "is_ws a \<or> a = CHR ''/''" using blank_hd [OF assms(1)] by simp
  then show ?thesis using Cons by (auto simp: delimited_def isdigit_nat isalpha_nat is_ws_def)
qed

subsection \<open>The texts of values\<close>

text \<open>
  \<open>value_text x v\<close>: the text \<open>x\<close> is a complete value, and \<open>v\<close> is the value it denotes. The
  grammar is that of JSON, with blank text (white space and comments) allowed between tokens,
  and with what this Parser does with it: a number is any Number lexeme that \<^verbatim>\<open>std::stod\<close>
  converts entirely, a string is decoded by \<open>decode\<close>, a key is the text between its quotes
  as it stands, and the members of an object are assigned one after the other, so that a key
  written twice keeps its last value. \<open>elements_text\<close> and \<open>members_text\<close> are the texts
  between the brackets of a non-empty array and the braces of a non-empty object.
\<close>

inductive value_text :: "string \<Rightarrow> JsonValue \<Rightarrow> bool"
  and elements_text :: "string \<Rightarrow> JsonValue list \<Rightarrow> bool"
  and members_text :: "string \<Rightarrow> (string \<times> JsonValue) list \<Rightarrow> bool"
where
  text_null: "value_text ''null'' JNull"
| text_true: "value_text ''true'' (JBool True)"
| text_false: "value_text ''false'' (JBool False)"
| text_string:
    "closing_quote (s @ [DQ]) = Some (length s) \<Longrightarrow> value_text (DQ # s @ [DQ]) (JString (decode s))"
| text_number:
    "number_shape n \<Longrightarrow> stod n = Converted d (length n) \<Longrightarrow> value_text n (JNumber d)"
| text_empty_array: "blank g \<Longrightarrow> value_text (''['' @ g @ '']'') (JArray [])"
| text_array: "elements_text es xs \<Longrightarrow> value_text (''['' @ es @ '']'') (JArray xs)"
| text_empty_object: "blank g \<Longrightarrow> value_text (''{'' @ g @ ''}'') (JObject [])"
| text_object:
    "members_text ms m \<Longrightarrow> value_text (''{'' @ ms @ ''}'') (JObject (assign_all [] m))"
| text_element:
    "blank g1 \<Longrightarrow> value_text x v \<Longrightarrow> blank g2 \<Longrightarrow> elements_text (g1 @ x @ g2) [v]"
| text_elements:
    "blank g1 \<Longrightarrow> value_text x v \<Longrightarrow> blank g2 \<Longrightarrow> elements_text es vs \<Longrightarrow>
       elements_text (g1 @ x @ g2 @ '','' @ es) (v # vs)"
| text_member:
    "blank g1 \<Longrightarrow> closing_quote (k @ [DQ]) = Some (length k) \<Longrightarrow> blank g2 \<Longrightarrow> blank g3 \<Longrightarrow>
       value_text x v \<Longrightarrow> blank g4 \<Longrightarrow>
       members_text (g1 @ DQ # k @ DQ # g2 @ '':'' @ g3 @ x @ g4) [(k, v)]"
| text_members:
    "blank g1 \<Longrightarrow> closing_quote (k @ [DQ]) = Some (length k) \<Longrightarrow> blank g2 \<Longrightarrow> blank g3 \<Longrightarrow>
       value_text x v \<Longrightarrow> blank g4 \<Longrightarrow> members_text ms m \<Longrightarrow>
       members_text (g1 @ DQ # k @ DQ # g2 @ '':'' @ g3 @ x @ g4 @ '','' @ ms) ((k, v) # m)"

lemma closing_quote_more:
  "closing_quote (k @ [DQ]) = Some n \<Longrightarrow> closing_quote (k @ DQ # t) = Some n"
proof (induction k arbitrary: n rule: closing_quote.induct)
  case 1
  then show ?case by simp
next
  case (2 c cs)
  show ?case
  proof (cases "c = DQ")
    case True
    then show ?thesis using "2.prems" by simp
  next
    case False
    show ?thesis
    proof (cases "c = BS")
      case True
      show ?thesis
      proof (cases cs)
        case Nil
        then show ?thesis using "2.prems" False True by simp
      next
        case (Cons d ds)
        then obtain m where m: "closing_quote (ds @ [DQ]) = Some m" "n = m + 2"
          using "2.prems" False True by auto
        have "closing_quote (ds @ DQ # t) = Some m"
          using "2.IH"(1) [OF False True Cons m(1)] .
        then show ?thesis using False True Cons m(2) by simp
      qed
    next
      case nbs: False
      then obtain m where m: "closing_quote (cs @ [DQ]) = Some m" "n = Suc m"
        using "2.prems" False by auto
      have "closing_quote (cs @ DQ # t) = Some m" using "2.IH"(2) [OF False nbs m(1)] .
      then show ?thesis using False nbs m(2) by simp
    qed
  qed
qed

lemma token_after_blank:
  assumes "blank g" "rest (lexer q) = g @ c # r"
    and "(c, ty) \<in> set [(CHR ''{'', LeftBrace), (CHR ''}'', RightBrace), (CHR ''['', LeftBracket),
           (CHR '']'', RightBracket), (CHR '','', Comma), (CHR '':'', Colon)]"
  obtains p where "Parser_advance q = Inr p" "type (currentToken p) = ty" "rest (lexer p) = r"
proof -
  obtain q' where q': "rest (lexer q') = [] @ c # r" "Parser_advance q = Parser_advance q'"
    using advance_blank [OF assms(1, 2)] by auto
  have w: "list_all is_ws []" by simp
  obtain p where "Parser_advance q' = Inr p" "type (currentToken p) = ty" "rest (lexer p) = r"
    using single_token [OF q'(1) w assms(3)] by blast
  then show ?thesis using that q'(2) by simp
qed

lemma string_after_blank:
  assumes "blank g" "rest (lexer q) = g @ DQ # s @ DQ # t"
    and "closing_quote (s @ [DQ]) = Some (length s)"
  obtains p where "Parser_advance q = Inr p" "type (currentToken p) = String"
    "lexeme (currentToken p) = DQ # s @ [DQ]" "rest (lexer p) = t"
proof -
  obtain q' where q': "rest (lexer q') = [] @ DQ # (s @ DQ # t)"
      "Parser_advance q = Parser_advance q'"
    using advance_blank [OF assms(1, 2)] by auto
  have w: "list_all is_ws []" by simp
  have cq: "closing_quote (s @ DQ # t) = Some (length s)"
    by (rule closing_quote_more [OF assms(3)])
  obtain p where "advances q' String (DQ # take (length s) (s @ DQ # t) @ [DQ])
      (drop (Suc (length s)) (s @ DQ # t)) p"
    using advances_String [OF q'(1) w cq] by blast
  then have "Parser_advance q' = Inr p" "type (currentToken p) = String"
    "lexeme (currentToken p) = DQ # s @ [DQ]" "rest (lexer p) = t"
    by (simp_all add: advances_def)
  then show ?thesis using that q'(2) by simp
qed

text \<open>\<open>closed x\<close>: the text \<open>x\<close> ends with a closing quote, bracket or brace, so that no text
  after it can continue its last token.\<close>

definition closed :: "string \<Rightarrow> bool" where
  "closed x = (x \<noteq> [] \<and> (last x = DQ \<or> last x = CHR '']'' \<or> last x = CHR ''}''))"

text \<open>\<open>reads_text x v\<close>: from a state whose Lexer stands in front of blank text, the text \<open>x\<close>
  and a text \<open>r\<close> that cannot continue a number or a word of \<open>x\<close>, \<^verbatim>\<open>advance\<close> and
  \<^verbatim>\<open>parseValue\<close> give \<open>v\<close> and go on to read the first token of \<open>r\<close>.\<close>

definition reads_text :: "string \<Rightarrow> JsonValue \<Rightarrow> bool" where
  "reads_text x v =
     (\<forall>q g r. rest (lexer q) = g @ x @ r \<longrightarrow> blank g \<longrightarrow> closed x \<or> delimited r
        \<longrightarrow> (\<exists>p. Parser_advance q = Inr p \<and> type (currentToken p) \<noteq> RightBracket
               \<and> type (currentToken p) \<noteq> RightBrace \<and> then_advance (parseValue p) v r))"

definition reads_elements :: "string \<Rightarrow> JsonValue list \<Rightarrow> bool" where
  "reads_elements es xs =
     (\<forall>q r. rest (lexer q) = es @ CHR '']'' # r
        \<longrightarrow> (\<exists>p q'. Parser_advance q = Inr p \<and> type (currentToken p) \<noteq> RightBracket
               \<and> rest (lexer q') = r \<and> type (currentToken q') = RightBracket
               \<and> (\<forall>acc. parseArrayLoop acc p = Inr (acc @ xs, q'))))"

definition reads_members :: "string \<Rightarrow> (string \<times> JsonValue) list \<Rightarrow> bool" where
  "reads_members ms m =
     (\<forall>q r. rest (lexer q) = ms @ CHR ''}'' # r
        \<longrightarrow> (\<exists>p q'. Parser_advance q = Inr p \<and> type (currentToken p) \<noteq> RightBrace
               \<and> rest (lexer q') = r \<and> type (currentToken q') = RightBrace
               \<and> (\<forall>acc. parseObjectLoop acc p = Inr (assign_all acc m, q'))))"

lemma reads_textI:
  assumes "\<And>q r. rest (lexer q) = x @ r \<Longrightarrow> closed x \<or> delimited r \<Longrightarrow>
      \<exists>p. Parser_advance q = Inr p \<and> type (currentToken p) \<noteq> RightBracket
        \<and> type (currentToken p) \<noteq> RightBrace \<and> then_advance (parseValue p) v r"
  shows "reads_text x v"
  unfolding reads_text_def
proof (intro allI impI)
  fix q :: Parser and g r
  assume a: "rest (lexer q) = g @ x @ r" "blank g" "closed x \<or> delimited r"
  obtain q' where q': "rest (lexer q') = x @ r" "Parser_advance q = Parser_advance q'"
    using advance_blank [OF a(2, 1)] by auto
  show "\<exists>p. Parser_advance q = Inr p \<and> type (currentToken p) \<noteq> RightBracket
      \<and> type (currentToken p) \<noteq> RightBrace \<and> then_advance (parseValue p) v r"
    using assms [OF q'(1) a(3)] q'(2) by simp
qed

lemma reads_textD:
  assumes "reads_text x v" "rest (lexer q) = g @ x @ r" "blank g" "closed x \<or> delimited r"
  obtains p q' where "Parser_advance q = Inr p" "type (currentToken p) \<noteq> RightBracket"
    "type (currentToken p) \<noteq> RightBrace" "rest (lexer q') = r"
    "parseValue p = (case Parser_advance q' of Inl e \<Rightarrow> Inl e | Inr p' \<Rightarrow> Inr (v, p'))"
  using assms unfolding reads_text_def then_advance_def by blast

lemma reads_text_keyword:
  assumes "(w, ty) \<in> set [(''true'', TrueTok), (''false'', FalseTok), (''null'', NullTok)]"
    and "\<And>p. type (currentToken p) = ty \<Longrightarrow>
      parseValue p = (case Parser_advance p of Inl e \<Rightarrow> Inl e | Inr p' \<Rightarrow> Inr (v, p'))"
  shows "reads_text w v"
proof (rule reads_textI)
  fix q :: Parser and r
  assume a: "rest (lexer q) = w @ r" "closed w \<or> delimited r"
  have "\<not> closed w" using assms(1) by (auto simp: closed_def)
  then have d: "delimited r" using a(2) by simp
  have "rest (lexer q) = [] @ w @ r" using a(1) by simp
  from reads_keyword [OF assms(1) this _ d]
  obtain p where p: "Parser_advance q = Inr p" "type (currentToken p) = ty" "rest (lexer p) = r"
    by auto
  have "then_advance (parseValue p) v r"
    unfolding then_advance_def using assms(2) [OF p(2)] p(3) by blast
  moreover have "ty \<noteq> RightBracket \<and> ty \<noteq> RightBrace" using assms(1) by auto
  ultimately show "\<exists>p. Parser_advance q = Inr p \<and> type (currentToken p) \<noteq> RightBracket
      \<and> type (currentToken p) \<noteq> RightBrace \<and> then_advance (parseValue p) v r"
    using p(1, 2) by auto
qed

lemma reads_text_null: "reads_text ''null'' JNull"
  by (rule reads_text_keyword [where ty = NullTok]) (simp, subst parseValue.simps, simp)

lemma reads_text_true: "reads_text ''true'' (JBool True)"
  by (rule reads_text_keyword [where ty = TrueTok]) (simp, subst parseValue.simps, simp)

lemma reads_text_false: "reads_text ''false'' (JBool False)"
  by (rule reads_text_keyword [where ty = FalseTok]) (simp, subst parseValue.simps, simp)

lemma reads_text_string:
  assumes "closing_quote (s @ [DQ]) = Some (length s)"
  shows "reads_text (DQ # s @ [DQ]) (JString (decode s))"
proof (rule reads_textI)
  fix q :: Parser and r
  assume a: "rest (lexer q) = (DQ # s @ [DQ]) @ r"
  have "rest (lexer q) = [] @ DQ # s @ DQ # r" using a(1) by simp
  from string_after_blank [OF blank_Nil this assms]
  obtain p where p: "Parser_advance q = Inr p" "type (currentToken p) = String"
      "lexeme (currentToken p) = DQ # s @ [DQ]" "rest (lexer p) = r"
    by blast
  have "parseValue p
      = (case Parser_advance p of Inl e \<Rightarrow> Inl e | Inr p' \<Rightarrow> Inr (JString (decode s), p'))"
    using p(2) parseString_lexeme [OF p(3)] by (subst parseValue.simps) simp
  then have "then_advance (parseValue p) (JString (decode s)) r"
    unfolding then_advance_def using p(4) by blast
  then show "\<exists>p. Parser_advance q = Inr p \<and> type (currentToken p) \<noteq> RightBracket
      \<and> type (currentToken p) \<noteq> RightBrace \<and> then_advance (parseValue p) (JString (decode s)) r"
    using p(1, 2) by auto
qed

lemma number_shape_open:
  assumes "number_shape n"
  shows "\<not> closed n"
proof -
  obtain c ip fp ex where sh: "n = c # ip @ fp @ ex" "isdigit c \<or> c = CHR ''-''"
      "list_all isdigit ip" "fraction_part fp" "exponent_part ex"
    using assms unfolding number_shape_def by blast
  define closer where "closer = (\<lambda>d. d = DQ \<or> d = CHR '']'' \<or> d = CHR ''}'')"
  have ok: "\<not> closer d" if "isdigit d" for d
    using that by (auto simp: closer_def isdigit_nat)
  have sg: "\<not> closer (CHR ''-'')" "\<not> closer (CHR ''+'')" "\<not> closer (CHR ''.'')"
    "\<not> closer (CHR ''e'')" "\<not> closer (CHR ''E'')"
    by (simp_all add: closer_def)
  have a: "\<not> closer d" if "d \<in> set (c # ip)" for d
    using that sh(2, 3) ok sg(1) unfolding list_all_iff by auto
  have b: "\<not> closer d" if "d \<in> set fp" for d
    using that sh(4) ok sg(3) unfolding fraction_part_def list_all_iff by auto
  have c: "\<not> closer d" if "d \<in> set ex" for d
    using that sh(5) ok sg unfolding exponent_part_def list_all_iff by auto
  have "last n \<in> set (c # ip) \<or> last n \<in> set fp \<or> last n \<in> set ex"
  proof -
    have "n \<noteq> []" using sh(1) by simp
    then have "last n \<in> set n" by (rule last_in_set)
    moreover have "set n = set (c # ip) \<union> set fp \<union> set ex" using sh(1) by auto
    ultimately show ?thesis by blast
  qed
  then have "\<not> closer (last n)" using a b c by blast
  then show ?thesis by (simp add: closed_def closer_def)
qed

lemma reads_text_number:
  assumes "number_shape n" "stod n = Converted d (length n)"
  shows "reads_text n (JNumber d)"
proof (rule reads_textI)
  fix q :: Parser and r
  assume a: "rest (lexer q) = n @ r" "closed n \<or> delimited r"
  obtain c ip fp ex where sh: "n = c # ip @ fp @ ex" "isdigit c \<or> c = CHR ''-''"
      "list_all isdigit ip" "fraction_part fp" "exponent_part ex"
    using assms(1) unfolding number_shape_def by blast
  have "\<not> closed n" using number_shape_open [OF assms(1)] .
  then have d: "delimited r" using a(2) by simp
  have "rest (lexer q) = [] @ c # ip @ fp @ ex @ r" using a(1) sh(1) by simp
  from advances_Number [OF this _ sh(2-5) d]
  obtain p where p: "Parser_advance q = Inr p" "type (currentToken p) = Number"
      "lexeme (currentToken p) = n" "rest (lexer p) = r"
    using sh(1) by (auto simp: advances_def)
  have "parseNumber p = (case Parser_advance p of Inl e \<Rightarrow> Inl e | Inr p' \<Rightarrow> Inr (JNumber d, p'))"
    using assms(2) p(3) by (simp add: parseNumber_def Let_def)
  then have "parseValue p
      = (case Parser_advance p of Inl e \<Rightarrow> Inl e | Inr p' \<Rightarrow> Inr (JNumber d, p'))"
    using p(2) by (subst parseValue.simps) simp
  then have "then_advance (parseValue p) (JNumber d) r"
    unfolding then_advance_def using p(4) by blast
  then show "\<exists>p. Parser_advance q = Inr p \<and> type (currentToken p) \<noteq> RightBracket
      \<and> type (currentToken p) \<noteq> RightBrace \<and> then_advance (parseValue p) (JNumber d) r"
    using p(1, 2) by auto
qed

lemma reads_text_empty_array:
  assumes "blank g"
  shows "reads_text (''['' @ g @ '']'') (JArray [])"
proof (rule reads_textI)
  fix q :: Parser and r
  assume a: "rest (lexer q) = (''['' @ g @ '']'') @ r"
  have "rest (lexer q) = [] @ CHR ''['' # (g @ CHR '']'' # r)" using a(1) by simp
  from token_after_blank [OF blank_Nil this, of LeftBracket]
  obtain p where p: "Parser_advance q = Inr p" "type (currentToken p) = LeftBracket"
      "rest (lexer p) = g @ CHR '']'' # r"
    by auto
  from token_after_blank [OF assms p(3), of RightBracket]
  obtain p1 where p1: "Parser_advance p = Inr p1" "type (currentToken p1) = RightBracket"
      "rest (lexer p1) = r"
    by auto
  have "parseArray p = (case Parser_advance p1 of Inl e \<Rightarrow> Inl e | Inr p' \<Rightarrow> Inr ([], p'))"
    using p(2) p1(1, 2)
    by (subst parseArray.simps) (simp add: consume_def split: sum.splits)
  then have "parseValue p
      = (case Parser_advance p1 of Inl e \<Rightarrow> Inl e | Inr p' \<Rightarrow> Inr (JArray [], p'))"
    using p(2) by (subst parseValue.simps) (simp split: sum.splits)
  then have "then_advance (parseValue p) (JArray []) r"
    unfolding then_advance_def using p1(3) by blast
  then show "\<exists>p. Parser_advance q = Inr p \<and> type (currentToken p) \<noteq> RightBracket
      \<and> type (currentToken p) \<noteq> RightBrace \<and> then_advance (parseValue p) (JArray []) r"
    using p(1, 2) by auto
qed

lemma reads_text_array:
  assumes "reads_elements es xs"
  shows "reads_text (''['' @ es @ '']'') (JArray xs)"
proof (rule reads_textI)
  fix q :: Parser and r
  assume a: "rest (lexer q) = (''['' @ es @ '']'') @ r"
  have "rest (lexer q) = [] @ CHR ''['' # (es @ CHR '']'' # r)" using a(1) by simp
  from token_after_blank [OF blank_Nil this, of LeftBracket]
  obtain p where p: "Parser_advance q = Inr p" "type (currentToken p) = LeftBracket"
      "rest (lexer p) = es @ CHR '']'' # r"
    by auto
  obtain p1 q' where p1: "Parser_advance p = Inr p1" "type (currentToken p1) \<noteq> RightBracket"
      "rest (lexer q') = r" "type (currentToken q') = RightBracket"
      "\<And>acc. parseArrayLoop acc p1 = Inr (acc @ xs, q')"
    using assms p(3) unfolding reads_elements_def by blast
  have "parseArray p = (case Parser_advance q' of Inl e \<Rightarrow> Inl e | Inr p' \<Rightarrow> Inr (xs, p'))"
    using p(2) p1(1, 2, 4) p1(5) [of "[]"]
    by (subst parseArray.simps) (simp add: consume_def split: sum.splits)
  then have "parseValue p
      = (case Parser_advance q' of Inl e \<Rightarrow> Inl e | Inr p' \<Rightarrow> Inr (JArray xs, p'))"
    using p(2) by (subst parseValue.simps) (simp split: sum.splits)
  then have "then_advance (parseValue p) (JArray xs) r"
    unfolding then_advance_def using p1(3) by blast
  then show "\<exists>p. Parser_advance q = Inr p \<and> type (currentToken p) \<noteq> RightBracket
      \<and> type (currentToken p) \<noteq> RightBrace \<and> then_advance (parseValue p) (JArray xs) r"
    using p(1, 2) by auto
qed

lemma reads_text_empty_object:
  assumes "blank g"
  shows "reads_text (''{'' @ g @ ''}'') (JObject [])"
proof (rule reads_textI)
  fix q :: Parser and r
  assume a: "rest (lexer q) = (''{'' @ g @ ''}'') @ r"
  have "rest (lexer q) = [] @ CHR ''{'' # (g @ CHR ''}'' # r)" using a(1) by simp
  from token_after_blank [OF blank_Nil this, of LeftBrace]
  obtain p where p: "Parser_advance q = Inr p" "type (currentToken p) = LeftBrace"
      "rest (lexer p) = g @ CHR ''}'' # r"
    by auto
  from token_after_blank [OF assms p(3), of RightBrace]
  obtain p1 where p1: "Parser_advance p = Inr p1" "type (currentToken p1) = RightBrace"
      "rest (lexer p1) = r"
    by auto
  have "parseObject p = (case Parser_advance p1 of Inl e \<Rightarrow> Inl e | Inr p' \<Rightarrow> Inr ([], p'))"
    using p(2) p1(1, 2)
    by (subst parseObject.simps) (simp add: consume_def split: sum.splits)
  then have "parseValue p
      = (case Parser_advance p1 of Inl e \<Rightarrow> Inl e | Inr p' \<Rightarrow> Inr (JObject [], p'))"
    using p(2) by (subst parseValue.simps) (simp split: sum.splits)
  then have "then_advance (parseValue p) (JObject []) r"
    unfolding then_advance_def using p1(3) by blast
  then show "\<exists>p. Parser_advance q = Inr p \<and> type (currentToken p) \<noteq> RightBracket
      \<and> type (currentToken p) \<noteq> RightBrace \<and> then_advance (parseValue p) (JObject []) r"
    using p(1, 2) by auto
qed

lemma reads_text_object:
  assumes "reads_members ms m"
  shows "reads_text (''{'' @ ms @ ''}'') (JObject (assign_all [] m))"
proof (rule reads_textI)
  fix q :: Parser and r
  assume a: "rest (lexer q) = (''{'' @ ms @ ''}'') @ r"
  have "rest (lexer q) = [] @ CHR ''{'' # (ms @ CHR ''}'' # r)" using a(1) by simp
  from token_after_blank [OF blank_Nil this, of LeftBrace]
  obtain p where p: "Parser_advance q = Inr p" "type (currentToken p) = LeftBrace"
      "rest (lexer p) = ms @ CHR ''}'' # r"
    by auto
  obtain p1 q' where p1: "Parser_advance p = Inr p1" "type (currentToken p1) \<noteq> RightBrace"
      "rest (lexer q') = r" "type (currentToken q') = RightBrace"
      "\<And>acc. parseObjectLoop acc p1 = Inr (assign_all acc m, q')"
    using assms p(3) unfolding reads_members_def by blast
  have "parseObject p
      = (case Parser_advance q' of Inl e \<Rightarrow> Inl e | Inr p' \<Rightarrow> Inr (assign_all [] m, p'))"
    using p(2) p1(1, 2, 4) p1(5) [of "[]"]
    by (subst parseObject.simps) (simp add: consume_def split: sum.splits)
  then have "parseValue p
      = (case Parser_advance q' of Inl e \<Rightarrow> Inl e
         | Inr p' \<Rightarrow> Inr (JObject (assign_all [] m), p'))"
    using p(2) by (subst parseValue.simps) (simp split: sum.splits)
  then have "then_advance (parseValue p) (JObject (assign_all [] m)) r"
    unfolding then_advance_def using p1(3) by blast
  then show "\<exists>p. Parser_advance q = Inr p \<and> type (currentToken p) \<noteq> RightBracket
      \<and> type (currentToken p) \<noteq> RightBrace
      \<and> then_advance (parseValue p) (JObject (assign_all [] m)) r"
    using p(1, 2) by auto
qed

text \<open>An element of an array, and what follows it.\<close>

lemma reads_element:
  assumes "blank g1" "reads_text x v" "blank g2"
    and "rest (lexer q) = g1 @ x @ g2 @ c # t" "c = CHR '','' \<or> c = CHR '']''"
  obtains p p2 where "Parser_advance q = Inr p" "type (currentToken p) \<noteq> RightBracket"
    "parseValue p = Inr (v, p2)"
    "type (currentToken p2) = (if c = CHR '','' then Comma else RightBracket)"
    "rest (lexer p2) = t"
proof -
  have d: "delimited (g2 @ c # t)" using assms(5) by (intro delimited_blank [OF assms(3)]) auto
  have r: "rest (lexer q) = g1 @ x @ (g2 @ c # t)" using assms(4) by simp
  from reads_textD [OF assms(2) r assms(1) disjI2 [OF d]]
  obtain p q1 where p: "Parser_advance q = Inr p" "type (currentToken p) \<noteq> RightBracket"
      "rest (lexer q1) = g2 @ c # t"
      "parseValue p = (case Parser_advance q1 of Inl e \<Rightarrow> Inl e | Inr p' \<Rightarrow> Inr (v, p'))"
    by blast
  have "(c, if c = CHR '','' then Comma else RightBracket)
      \<in> set [(CHR ''{'', LeftBrace), (CHR ''}'', RightBrace), (CHR ''['', LeftBracket),
           (CHR '']'', RightBracket), (CHR '','', Comma), (CHR '':'', Colon)]"
    using assms(5) by auto
  from token_after_blank [OF assms(3) p(3) this]
  obtain p2 where p2: "Parser_advance q1 = Inr p2"
      "type (currentToken p2) = (if c = CHR '','' then Comma else RightBracket)"
      "rest (lexer p2) = t"
    by blast
  have "parseValue p = Inr (v, p2)" using p(4) p2(1) by simp
  then show ?thesis using that p(1, 2) p2(2, 3) by blast
qed

lemma reads_elements_one:
  assumes "blank g1" "reads_text x v" "blank g2"
  shows "reads_elements (g1 @ x @ g2) [v]"
  unfolding reads_elements_def
proof (intro allI impI)
  fix q :: Parser and r
  assume "rest (lexer q) = (g1 @ x @ g2) @ CHR '']'' # r"
  then have r: "rest (lexer q) = g1 @ x @ g2 @ CHR '']'' # r" by simp
  from reads_element [OF assms r]
  obtain p p2 where p: "Parser_advance q = Inr p" "type (currentToken p) \<noteq> RightBracket"
      "parseValue p = Inr (v, p2)" "type (currentToken p2) = RightBracket" "rest (lexer p2) = r"
    by auto
  have "parseArrayLoop acc p = Inr (acc @ [v], p2)" for acc
    using p(3, 4) by (subst parseArrayLoop.simps) simp
  then show "\<exists>p q'. Parser_advance q = Inr p \<and> type (currentToken p) \<noteq> RightBracket
      \<and> rest (lexer q') = r \<and> type (currentToken q') = RightBracket
      \<and> (\<forall>acc. parseArrayLoop acc p = Inr (acc @ [v], q'))"
    using p(1, 2, 4, 5) by blast
qed

lemma reads_elements_more:
  assumes "blank g1" "reads_text x v" "blank g2" "reads_elements es vs"
  shows "reads_elements (g1 @ x @ g2 @ '','' @ es) (v # vs)"
  unfolding reads_elements_def
proof (intro allI impI)
  fix q :: Parser and r
  assume "rest (lexer q) = (g1 @ x @ g2 @ '','' @ es) @ CHR '']'' # r"
  then have r: "rest (lexer q) = g1 @ x @ g2 @ CHR '','' # (es @ CHR '']'' # r)" by simp
  from reads_element [OF assms(1-3) r]
  obtain p p2 where p: "Parser_advance q = Inr p" "type (currentToken p) \<noteq> RightBracket"
      "parseValue p = Inr (v, p2)" "type (currentToken p2) = Comma"
      "rest (lexer p2) = es @ CHR '']'' # r"
    by auto
  obtain p3 q' where p3: "Parser_advance p2 = Inr p3" "rest (lexer q') = r"
      "type (currentToken q') = RightBracket"
      "\<And>acc. parseArrayLoop acc p3 = Inr (acc @ vs, q')"
    using assms(4) p(5) unfolding reads_elements_def by blast
  have "parseArrayLoop acc p = Inr (acc @ v # vs, q')" for acc
    using p(3, 4) p3(1) p3(4) [of "acc @ [v]"]
    by (subst parseArrayLoop.simps) (simp add: consume_def)
  then show "\<exists>p q'. Parser_advance q = Inr p \<and> type (currentToken p) \<noteq> RightBracket
      \<and> rest (lexer q') = r \<and> type (currentToken q') = RightBracket
      \<and> (\<forall>acc. parseArrayLoop acc p = Inr (acc @ v # vs, q'))"
    using p(1, 2) p3(2, 3) by blast
qed

text \<open>A member of an object, and what follows it.\<close>

lemma reads_member:
  assumes "blank g1" "closing_quote (k @ [DQ]) = Some (length k)" "blank g2" "blank g3"
    "reads_text x v" "blank g4"
    and "rest (lexer q) = g1 @ DQ # k @ DQ # g2 @ '':'' @ g3 @ x @ g4 @ c # t"
    and "(c, ty) \<in> set [(CHR '','', Comma), (CHR ''}'', RightBrace)]"
  obtains p p1 p2 p3 where "Parser_advance q = Inr p" "type (currentToken p) = String"
    "lexeme (currentToken p) = DQ # k @ [DQ]"
    "Parser_advance p = Inr p1" "type (currentToken p1) = Colon" "Parser_advance p1 = Inr p2"
    "parseValue p2 = Inr (v, p3)" "type (currentToken p3) = ty" "rest (lexer p3) = t"
proof -
  have r: "rest (lexer q) = g1 @ DQ # k @ DQ # (g2 @ CHR '':'' # (g3 @ x @ g4 @ c # t))"
    using assms(7) by simp
  from string_after_blank [OF assms(1) r assms(2)]
  obtain p where p: "Parser_advance q = Inr p" "type (currentToken p) = String"
      "lexeme (currentToken p) = DQ # k @ [DQ]"
      "rest (lexer p) = g2 @ CHR '':'' # (g3 @ x @ g4 @ c # t)"
    by blast
  from token_after_blank [OF assms(3) p(4), of Colon]
  obtain p1 where p1: "Parser_advance p = Inr p1" "type (currentToken p1) = Colon"
      "rest (lexer p1) = g3 @ x @ (g4 @ c # t)"
    by auto
  have d: "delimited (g4 @ c # t)" using assms(8) by (intro delimited_blank [OF assms(6)]) auto
  have cty: "(c, ty)
      \<in> set [(CHR ''{'', LeftBrace), (CHR ''}'', RightBrace), (CHR ''['', LeftBracket),
           (CHR '']'', RightBracket), (CHR '','', Comma), (CHR '':'', Colon)]"
    using assms(8) by auto
  from reads_textD [OF assms(5) p1(3) assms(4) disjI2 [OF d]]
  obtain p2 q1 where p2: "Parser_advance p1 = Inr p2" "rest (lexer q1) = g4 @ c # t"
      "parseValue p2 = (case Parser_advance q1 of Inl e \<Rightarrow> Inl e | Inr p' \<Rightarrow> Inr (v, p'))"
    by blast
  from token_after_blank [OF assms(6) p2(2) cty]
  obtain p3 where p3: "Parser_advance q1 = Inr p3" "type (currentToken p3) = ty"
      "rest (lexer p3) = t"
    by blast
  have "parseValue p2 = Inr (v, p3)" using p2(3) p3(1) by simp
  then show ?thesis using that p(1, 2, 3) p1(1, 2) p2(1) p3(2, 3) by blast
qed

lemma reads_members_one:
  assumes "blank g1" "closing_quote (k @ [DQ]) = Some (length k)" "blank g2" "blank g3"
    "reads_text x v" "blank g4"
  shows "reads_members (g1 @ DQ # k @ DQ # g2 @ '':'' @ g3 @ x @ g4) [(k, v)]"
  unfolding reads_members_def
proof (intro allI impI)
  fix q :: Parser and r
  assume "rest (lexer q) = (g1 @ DQ # k @ DQ # g2 @ '':'' @ g3 @ x @ g4) @ CHR ''}'' # r"
  then have r: "rest (lexer q) = g1 @ DQ # k @ DQ # g2 @ '':'' @ g3 @ x @ g4 @ CHR ''}'' # r"
    by simp
  have "(CHR ''}'', RightBrace) \<in> set [(CHR '','', Comma), (CHR ''}'', RightBrace)]" by simp
  from reads_member [OF assms r this]
  obtain p p1 p2 p3 where p: "Parser_advance q = Inr p" "type (currentToken p) = String"
      "lexeme (currentToken p) = DQ # k @ [DQ]"
      "Parser_advance p = Inr p1" "type (currentToken p1) = Colon" "Parser_advance p1 = Inr p2"
      "parseValue p2 = Inr (v, p3)" "type (currentToken p3) = RightBrace" "rest (lexer p3) = r"
    by blast
  have ne: "type (currentToken p) \<noteq> RightBrace" using p(2) by simp
  have "parseObjectLoop acc p = Inr (assign_all acc [(k, v)], p3)" for acc
    using p(2-8) by (subst parseObjectLoop.simps) (simp add: consume_def assign_all_def)
  then show "\<exists>p q'. Parser_advance q = Inr p \<and> type (currentToken p) \<noteq> RightBrace
      \<and> rest (lexer q') = r \<and> type (currentToken q') = RightBrace
      \<and> (\<forall>acc. parseObjectLoop acc p = Inr (assign_all acc [(k, v)], q'))"
    using p(1) ne p(8, 9) by blast
qed

lemma reads_members_more:
  assumes "blank g1" "closing_quote (k @ [DQ]) = Some (length k)" "blank g2" "blank g3"
    "reads_text x v" "blank g4" "reads_members ms m"
  shows "reads_members (g1 @ DQ # k @ DQ # g2 @ '':'' @ g3 @ x @ g4 @ '','' @ ms) ((k, v) # m)"
  unfolding reads_members_def
proof (intro allI impI)
  fix q :: Parser and r
  assume "rest (lexer q)
      = (g1 @ DQ # k @ DQ # g2 @ '':'' @ g3 @ x @ g4 @ '','' @ ms) @ CHR ''}'' # r"
  then have r: "rest (lexer q)
      = g1 @ DQ # k @ DQ # g2 @ '':'' @ g3 @ x @ g4 @ CHR '','' # (ms @ CHR ''}'' # r)"
    by simp
  have "(CHR '','', Comma) \<in> set [(CHR '','', Comma), (CHR ''}'', RightBrace)]" by simp
  from reads_member [OF assms(1-6) r this]
  obtain p p1 p2 p3 where p: "Parser_advance q = Inr p" "type (currentToken p) = String"
      "lexeme (currentToken p) = DQ # k @ [DQ]"
      "Parser_advance p = Inr p1" "type (currentToken p1) = Colon" "Parser_advance p1 = Inr p2"
      "parseValue p2 = Inr (v, p3)" "type (currentToken p3) = Comma"
      "rest (lexer p3) = ms @ CHR ''}'' # r"
    by blast
  have ne: "type (currentToken p) \<noteq> RightBrace" using p(2) by simp
  obtain p4 q' where p4: "Parser_advance p3 = Inr p4" "rest (lexer q') = r"
      "type (currentToken q') = RightBrace"
      "\<And>acc. parseObjectLoop acc p4 = Inr (assign_all acc m, q')"
    using assms(7) p(9) unfolding reads_members_def by blast
  have "parseObjectLoop acc p = Inr (assign_all acc ((k, v) # m), q')" for acc
    using p(2-8) p4(1) p4(4) [of "map_assign k v acc"]
    by (subst parseObjectLoop.simps) (simp add: consume_def assign_all_Cons)
  then show "\<exists>p q'. Parser_advance q = Inr p \<and> type (currentToken p) \<noteq> RightBrace
      \<and> rest (lexer q') = r \<and> type (currentToken q') = RightBrace
      \<and> (\<forall>acc. parseObjectLoop acc p = Inr (assign_all acc ((k, v) # m), q'))"
    using p(1) ne p4(2, 3) by blast
qed

text \<open>Every text of a value is read as that value.\<close>

lemma reads_value_text:
  "value_text x v \<Longrightarrow> reads_text x v"
  "elements_text es xs \<Longrightarrow> reads_elements es xs"
  "members_text ms m \<Longrightarrow> reads_members ms m"
proof (induction rule: value_text_elements_text_members_text.inducts)
  case text_null
  show ?case by (rule reads_text_null)
next
  case text_true
  show ?case by (rule reads_text_true)
next
  case text_false
  show ?case by (rule reads_text_false)
next
  case (text_string s)
  then show ?case by (rule reads_text_string)
next
  case (text_number n d)
  then show ?case by (rule reads_text_number)
next
  case (text_empty_array g)
  then show ?case by (rule reads_text_empty_array)
next
  case (text_array es xs)
  then show ?case by (intro reads_text_array)
next
  case (text_empty_object g)
  then show ?case by (rule reads_text_empty_object)
next
  case (text_object ms m)
  then show ?case by (intro reads_text_object)
next
  case (text_element g1 x v g2)
  then show ?case by (intro reads_elements_one)
next
  case (text_elements g1 x v g2 es vs)
  then show ?case by (intro reads_elements_more)
next
  case (text_member g1 k g2 g3 x v g4)
  then show ?case by (intro reads_members_one)
next
  case (text_members g1 k g2 g3 x v g4 ms m)
  then show ?case by (intro reads_members_more)
qed

lemma value_text_hd: "value_text x v \<Longrightarrow> x \<noteq> [] \<and> hd x \<noteq> CHR 0xEF"
proof (induction rule: value_text_elements_text_members_text.inducts(1)
    [where ?P2.0 = "\<lambda>es xs. True" and ?P3.0 = "\<lambda>ms m. True"])
  case (text_number n d)
  then obtain c ip fp ex where "n = c # ip @ fp @ ex" "isdigit c \<or> c = CHR ''-''"
    unfolding number_shape_def by blast
  then show ?case by (auto simp: isdigit_nat)
qed simp_all

lemma parse_text_then:
  assumes "value_text x v" "blank g" "closed x \<or> delimited r"
  shows "\<exists>q'. rest (lexer q') = r
    \<and> parse (g @ x @ r) = (case Parser_advance q' of Inl e \<Rightarrow> Inl e | Inr p' \<Rightarrow> Inr v)"
proof -
  define src where "src = g @ x @ r"
  have "hd src \<noteq> CHR 0xEF"
  proof (cases g)
    case Nil
    then show ?thesis using value_text_hd [OF assms(1)] by (simp add: src_def)
  next
    case (Cons a g')
    then have "is_ws a \<or> a = CHR ''/''" using blank_hd [OF assms(2)] by simp
    then show ?thesis using Cons by (auto simp: src_def is_ws_def)
  qed
  then have nb: "src = [] \<or> hd src \<noteq> CHR 0xEF" by simp
  have r0: "rest (lexer (parser0 src)) = g @ x @ r" by (simp add: src_def)
  from reads_textD [OF reads_value_text(1) [OF assms(1)] r0 assms(2, 3)]
  obtain p q' where p: "Parser_advance (parser0 src) = Inr p" "rest (lexer q') = r"
      "parseValue p = (case Parser_advance q' of Inl e \<Rightarrow> Inl e | Inr p' \<Rightarrow> Inr (v, p'))"
    by blast
  have "parse src = (case Parser_advance q' of Inl e \<Rightarrow> Inl e | Inr p' \<Rightarrow> Inr v)"
    using p(1, 3) by (simp add: parse_no_bom [OF nb] split: sum.splits)
  then show ?thesis using p(2) unfolding src_def by blast
qed

lemma number_shape_digit: "isdigit c \<Longrightarrow> number_shape [c]"
  unfolding number_shape_def
  by (intro exI [of _ c] exI [of _ "[]"]) (simp add: fraction_part_def exponent_part_def)

section \<open>The claims\<close>

text \<open>
  Claim C5. A trailing comma after the last element of an array or the last member of an object
  is rejected. In the loop of \<^verbatim>\<open>parseArray\<close>: when an element has been parsed, the current
  token is a comma and the token after it is \<^verbatim>\<open>]\<close>, the loop fails with
  \<^verbatim>\<open>Expected a value\<close> at that \<^verbatim>\<open>]\<close>, whatever the elements before. In the loop of
  \<^verbatim>\<open>parseObject\<close>: when a member (key, colon, value) has been parsed, the current token is
  a comma and the token after it is \<^verbatim>\<open>}\<close>, the loop fails with
  \<^verbatim>\<open>Expected a string key\<close> at that \<^verbatim>\<open>}\<close>. The error of a loop is the error of
  \<^verbatim>\<open>parse\<close>: nothing catches it. So parsing \<^verbatim>\<open>[1,2,]\<close> and parsing \<^verbatim>\<open>{"a":1,}\<close> both
  fail with a parse error and return no value.
\<close>

theorem trailing_comma_rejected:
  \<open>(parseValue p = Inr (v, p1) \<and> type (currentToken p1) = Comma
      \<and> Parser_advance p1 = Inr p2 \<and> type (currentToken p2) = RightBracket \<longrightarrow>
      parseArrayLoop array p
      = Inl (ParsingError
          ''Expected a value (object, array, string, number, true, false, or null).''
          (line (currentToken p2)) (col (currentToken p2))))
   \<and> (type (currentToken q) = String \<and> Parser_advance q = Inr q1
      \<and> type (currentToken q1) = Colon \<and> Parser_advance q1 = Inr q2
      \<and> parseValue q2 = Inr (v, q3) \<and> type (currentToken q3) = Comma
      \<and> Parser_advance q3 = Inr q4 \<and> type (currentToken q4) = RightBrace \<longrightarrow>
      parseObjectLoop object q
      = Inl (ParsingError ''Expected a string key for object member.''
          (line (currentToken q4)) (col (currentToken q4))))
   \<and> parse ''[1,2,]''
     = Inl (ParsingError
         ''Expected a value (object, array, string, number, true, false, or null).'' 1 6)
   \<and> parse ''{"a":1,}''
     = Inl (ParsingError ''Expected a string key for object member.'' 1 8)\<close>
proof (intro conjI impI)
  assume a: "parseValue p = Inr (v, p1) \<and> type (currentToken p1) = Comma
      \<and> Parser_advance p1 = Inr p2 \<and> type (currentToken p2) = RightBracket"
  have "parseArrayLoop (array @ [v]) p2
      = Inl (ParsingError
          ''Expected a value (object, array, string, number, true, false, or null).''
          (line (currentToken p2)) (col (currentToken p2)))"
    using a parseValue_closer [of p2] by (subst parseArrayLoop.simps) simp
  then show "parseArrayLoop array p
      = Inl (ParsingError
          ''Expected a value (object, array, string, number, true, false, or null).''
          (line (currentToken p2)) (col (currentToken p2)))"
    using a by (subst parseArrayLoop.simps) (simp add: consume_def)
next
  assume a: "type (currentToken q) = String \<and> Parser_advance q = Inr q1
      \<and> type (currentToken q1) = Colon \<and> Parser_advance q1 = Inr q2
      \<and> parseValue q2 = Inr (v, q3) \<and> type (currentToken q3) = Comma
      \<and> Parser_advance q3 = Inr q4 \<and> type (currentToken q4) = RightBrace"
  have "parseObjectLoop ob q4
      = Inl (ParsingError ''Expected a string key for object member.''
          (line (currentToken q4)) (col (currentToken q4)))" for ob
    using a by (subst parseObjectLoop.simps) simp
  then show "parseObjectLoop object q
      = Inl (ParsingError ''Expected a string key for object member.''
          (line (currentToken q4)) (col (currentToken q4)))"
    using a by (subst parseObjectLoop.simps) (simp add: consume_def Let_def)
next
  show \<open>parse ''[1,2,]''
     = Inl (ParsingError
         ''Expected a value (object, array, string, number, true, false, or null).'' 1 6)\<close>
    by code_simp
  show \<open>parse ''{"a":1,}''
     = Inl (ParsingError ''Expected a string key for object member.'' 1 8)\<close>
    by code_simp
qed

theorem trailing_comma_rejected_witness:
  \<open>parseValue array_example = Inr (JBool True, snd (projr (parseValue array_example)))
   \<and> type (currentToken (snd (projr (parseValue array_example)))) = Comma
   \<and> type (currentToken (projr (Parser_advance (snd (projr (parseValue array_example))))))
       = RightBracket
   \<and> parseArrayLoop [JNull] array_example
       = Inl (ParsingError
           ''Expected a value (object, array, string, number, true, false, or null).'' 1 6)
   \<and> type (currentToken object_example) = String
   \<and> type (currentToken (projr (Parser_advance object_example))) = Colon
   \<and> parseObjectLoop [] object_example
       = Inl (ParsingError ''Expected a string key for object member.'' 1 10)\<close>
proof -
  define p1 where "p1 = snd (projr (parseValue array_example))"
  define p2 where "p2 = projr (Parser_advance p1)"
  have a: "parseValue array_example = Inr (JBool True, p1)" "type (currentToken p1) = Comma"
    "Parser_advance p1 = Inr p2" "type (currentToken p2) = RightBracket"
    "line (currentToken p2) = 1" "col (currentToken p2) = 6"
    unfolding p2_def p1_def by code_simp+
  define q1 where "q1 = projr (Parser_advance object_example)"
  define q2 where "q2 = projr (Parser_advance q1)"
  define q3 where "q3 = snd (projr (parseValue q2))"
  define q4 where "q4 = projr (Parser_advance q3)"
  have b: "type (currentToken object_example) = String" "Parser_advance object_example = Inr q1"
    "type (currentToken q1) = Colon" "Parser_advance q1 = Inr q2"
    "parseValue q2 = Inr (JNull, q3)" "type (currentToken q3) = Comma"
    "Parser_advance q3 = Inr q4" "type (currentToken q4) = RightBrace"
    "line (currentToken q4) = 1" "col (currentToken q4) = 10"
    unfolding q4_def q3_def q2_def q1_def by code_simp+
  have "parseArrayLoop [JNull] array_example
       = Inl (ParsingError
           ''Expected a value (object, array, string, number, true, false, or null).'' 1 6)"
    using trailing_comma_rejected [where p = array_example and v = "JBool True" and ?p1.0 = p1
        and ?p2.0 = p2 and array = "[JNull]"] a
    by simp
  moreover have "parseObjectLoop [] object_example
       = Inl (ParsingError ''Expected a string key for object member.'' 1 10)"
    using trailing_comma_rejected [where q = object_example and v = JNull and ?q1.0 = q1
        and ?q2.0 = q2 and ?q3.0 = q3 and ?q4.0 = q4 and object = "[]"] b
    by simp
  ultimately show ?thesis using a(1, 2, 4) b(1, 3) by (simp add: p1_def p2_def q1_def)
qed

text \<open>
  Claim C10. A raw, unescaped newline character inside a string literal does not terminate the
  token and is not an error: the Lexer continues the string across the line break, and
  \<^verbatim>\<open>parse\<close> returns a String value that contains the newline character. More generally, for
  every text \<open>s\<close> without a double quote and without a backslash (line breaks and all other
  characters are allowed), parsing \<open>s\<close> between two double quotes yields the String \<open>s\<close>; the
  example is the literal made of \<^verbatim>\<open>a\<close>, a line feed and \<^verbatim>\<open>b\<close>.
\<close>

theorem raw_newline_in_string:
  assumes "DQ \<notin> set s" "BS \<notin> set s"
  shows "parse (DQ # s @ [DQ]) = Inr (JString s)"
proof -
  obtain p where p: "advances (parser0 (DQ # s @ [DQ])) String (DQ # s @ [DQ]) [] p"
    using advances_String_clean [of "parser0 (DQ # s @ [DQ])" "[]" s "[]"] assms by auto
  then have "rest (lexer p) = []" by (simp add: advances_def)
  then obtain p' where p': "advances p EndOfFile [] [] p'"
    using advances_EndOfFile [of p "[]"] by auto
  then have "parseValue p = Inr (JString (decode s), p')"
    using parseValue_String [OF p] by (simp add: advances_def)
  moreover have "Parser_advance (parser0 (DQ # s @ [DQ])) = Inr p"
    using p by (simp add: advances_def)
  ultimately show ?thesis
    using decode_clean [OF assms(2)] by (simp add: parse_no_bom)
qed

theorem raw_newline_in_string_witness:
  "DQ \<notin> set (''a'' @ [LF] @ ''b'') \<and> BS \<notin> set (''a'' @ [LF] @ ''b'')
   \<and> parse (DQ # (''a'' @ [LF] @ ''b'') @ [DQ]) = Inr (JString (''a'' @ [LF] @ ''b''))"
  using raw_newline_in_string [of "''a'' @ [LF] @ ''b''"] by simp

text \<open>
  Claim C4. \<^verbatim>\<open>parseString\<close> decodes exactly the eight escapes
  \<^verbatim>\<open>\" \\ \/ \b \f \n \r \t\<close> to their literal characters, and for any other escaped character
  drops the backslash and keeps the following character. On every String token, a text \<open>s\<close>
  between two quotes, \<^verbatim>\<open>parseString\<close> returns the String \<open>decode s\<close> and advances; and for
  every text \<open>s\<close> that is the inside of a string literal (its quotes all escaped, no backslash
  left alone at its end), \<^verbatim>\<open>parse\<close> of \<open>s\<close> between two quotes returns the String
  \<open>decode s\<close>. In particular parsing the string literal \<^verbatim>\<open>"\u0041"\<close> yields the 5-character
  string \<^verbatim>\<open>u0041\<close>, not the character \<^verbatim>\<open>A\<close>.
\<close>

theorem escapes_decoded:
  \<open>(lexeme (currentToken p) = DQ # s @ [DQ] \<longrightarrow>
      parseString p
      = (case Parser_advance p of Inl e \<Rightarrow> Inl e | Inr p' \<Rightarrow> Inr (JString (decode s), p')))
   \<and> (closing_quote (s @ [DQ]) = Some (length s) \<longrightarrow>
        parse (DQ # s @ [DQ]) = Inr (JString (decode s)))
   \<and> parse (''"'' @ [BS] @ ''u0041"'') = Inr (JString ''u0041'')\<close>
proof (intro conjI impI)
  show "parseString p
      = (case Parser_advance p of Inl e \<Rightarrow> Inl e | Inr p' \<Rightarrow> Inr (JString (decode s), p'))"
    if "lexeme (currentToken p) = DQ # s @ [DQ]"
    using that by (rule parseString_lexeme)
  show "parse (DQ # s @ [DQ]) = Inr (JString (decode s))"
    if "closing_quote (s @ [DQ]) = Some (length s)"
    using that by (rule parse_string_literal)
  show \<open>parse (''"'' @ [BS] @ ''u0041"'') = Inr (JString ''u0041'')\<close> by code_simp
qed

theorem escapes_decoded_witness:
  \<open>closing_quote (all_escapes @ [DQ]) = Some (length all_escapes)
   \<and> decode all_escapes = [DQ, BS, CHR ''/'', BSP, FF, LF, CR, TAB] @ ''u0041''
   \<and> parse (DQ # all_escapes @ [DQ])
       = Inr (JString ([DQ, BS, CHR ''/'', BSP, FF, LF, CR, TAB] @ ''u0041''))
   \<and> lexeme (currentToken (projr (Parser_init (DQ # all_escapes @ [DQ]))))
       = DQ # all_escapes @ [DQ]
   \<and> parseString (projr (Parser_init (DQ # all_escapes @ [DQ])))
       = (case Parser_advance (projr (Parser_init (DQ # all_escapes @ [DQ]))) of
            Inl e \<Rightarrow> Inl e
          | Inr p' \<Rightarrow> Inr (JString ([DQ, BS, CHR ''/'', BSP, FF, LF, CR, TAB] @ ''u0041''), p'))\<close>
proof -
  have a: "closing_quote (all_escapes @ [DQ]) = Some (length all_escapes)"
    by (simp add: all_escapes_def)
  have b: "decode all_escapes = [DQ, BS, CHR ''/'', BSP, FF, LF, CR, TAB] @ ''u0041''"
    by (simp add: all_escapes_def escapes_def)
  have c: "lexeme (currentToken (projr (Parser_init (DQ # all_escapes @ [DQ]))))
       = DQ # all_escapes @ [DQ]"
    by code_simp
  show ?thesis
    using escapes_decoded [of "projr (Parser_init (DQ # all_escapes @ [DQ]))" all_escapes]
      a b c
    by (simp cong: sum.case_cong)
qed




text \<open>
  Claim C7. An unterminated block comment (\<^verbatim>\<open>/*\<close> with no closing \<^verbatim>\<open>*/\<close> before the end
  of the input) does not itself raise an error: scanning resumes at the end of the input, so an
  input made of a complete value and an unterminated block comment parses to that value. For
  white space \<open>ws\<close> and a text \<open>cs\<close> that does not hold \<^verbatim>\<open>*/\<close>: with the Lexer in front of
  \<open>ws\<close>, \<^verbatim>\<open>/*\<close> and \<open>cs\<close>, \<^verbatim>\<open>Parser::advance\<close> succeeds, the token is EndOfFile and the
  Lexer is at the end of the input; and the text written for any plain value \<open>v\<close>, followed by
  \<open>ws\<close>, \<^verbatim>\<open>/*\<close> and \<open>cs\<close>, parses to \<open>v\<close>. The input \<^verbatim>\<open>[true] /* never closed\<close> yields the
  array of \<^verbatim>\<open>true\<close>.
\<close>

theorem unterminated_block_comment:
  assumes "list_all is_ws ws" "\<not> closes cs"
  shows "(rest (lexer q) = ws @ ''/*'' @ cs \<longrightarrow>
       (\<exists>p. Parser_advance q = Inr p \<and> type (currentToken p) = EndOfFile \<and> rest (lexer p) = []))
    \<and> (plain v \<longrightarrow> parse (serialise v 0 @ ws @ ''/*'' @ cs) = Inr v)
    \<and> parse ''[true] /* never closed'' = Inr (JArray [JBool True])"
proof (intro conjI impI)
  assume "rest (lexer q) = ws @ ''/*'' @ cs"
  then have "rest (lexer q) = ws @ CHR ''/'' # CHR ''*'' # cs" by simp
  from advances_open_comment [OF this assms]
  show "\<exists>p. Parser_advance q = Inr p \<and> type (currentToken p) = EndOfFile \<and> rest (lexer p) = []"
    by (auto simp: advances_def)
next
  assume v: "plain v"
  have "delimited (ws @ ''/*'' @ cs)"
  proof (cases ws)
    case Nil
    then show ?thesis by (simp add: delimited_def isdigit_nat isalpha_nat)
  next
    case (Cons w ws')
    then have "is_ws w" using assms(1) by simp
    then show ?thesis using Cons by (auto simp: delimited_def isdigit_nat isalpha_nat is_ws_def)
  qed
  from parse_serialise_then [OF v this]
  obtain q' where q': "rest (lexer q') = ws @ CHR ''/'' # CHR ''*'' # cs"
      "parse (serialise v 0 @ ws @ ''/*'' @ cs)
        = (case Parser_advance q' of Inl e \<Rightarrow> Inl e | Inr p' \<Rightarrow> Inr v)"
    by auto
  obtain p where "Parser_advance q' = Inr p"
    using advances_open_comment [OF q'(1) assms] by (auto simp: advances_def)
  then show "parse (serialise v 0 @ ws @ ''/*'' @ cs) = Inr v" using q'(2) by simp
next
  show "parse ''[true] /* never closed'' = Inr (JArray [JBool True])" by code_simp
qed

theorem unterminated_block_comment_witness:
  \<open>list_all is_ws '' '' \<and> \<not> closes '' * / *''
   \<and> rest (lexer (parser0 '' /* * / *'')) = '' '' @ ''/*'' @ '' * / *''
   \<and> (\<exists>p. Parser_advance (parser0 '' /* * / *'') = Inr p \<and> type (currentToken p) = EndOfFile
        \<and> rest (lexer p) = [])
   \<and> plain (JObject [(''k'', JNull)])
   \<and> parse (serialise (JObject [(''k'', JNull)]) 0 @ '' '' @ ''/*'' @ '' * / *'')
       = Inr (JObject [(''k'', JNull)])\<close>
proof -
  have a: "list_all is_ws '' ''" "\<not> closes '' * / *''" by simp_all
  have r: "rest (lexer (parser0 '' /* * / *'')) = '' '' @ ''/*'' @ '' * / *''" by simp
  have p: "plain (JObject [(''k'', JNull)])" by simp
  show ?thesis
    using unterminated_block_comment [OF a, of "parser0 '' /* * / *''" "JObject [(''k'', JNull)]"]
      a r p
    by blast
qed

text \<open>
  Claim C8. Every parse error carries the 1-based line number and the 1-based column number at
  which the offending token starts in the source; for the input of the specification, \<^verbatim>\<open>{\<close>,
  a line feed and \<^verbatim>\<open>  "a": }\<close>, the reported line is 2. The example holds (line 2, column
  8, where the \<^verbatim>\<open>}\<close> stands). The claim does not hold of the code after a line feed inside
  a block comment or a string literal: both loops set the column to 1 before
  \<^verbatim>\<open>advance()\<close> counts the line feed itself, where the white-space case of
  \<^verbatim>\<open>skipWhitespaceAndComments\<close> sets it after, so the columns on the new line are one
  too large. After \<^verbatim>\<open>/*\<close>, a line feed and \<^verbatim>\<open>*/\<close> the token \<^verbatim>\<open>]\<close> starts at line 2,
  column 3 and the error says column 4; after a string holding a line feed the same happens;
  and a line feed after a backslash in a string is not counted as a line at all, so a token
  of line 2 is reported on line 1.
\<close>

theorem error_position:
  \<open>parse (''{'' @ [LF] @ ''  "a": }'')
     = Inl (ParsingError
         ''Expected a value (object, array, string, number, true, false, or null).'' 2 8)
   \<and> token_position (''{'' @ [LF] @ ''  "a": }'') 9 = (2, 8)
   \<and> parse (''/*'' @ [LF] @ ''*/]'')
     = Inl (ParsingError
         ''Expected a value (object, array, string, number, true, false, or null).'' 2 4)
   \<and> token_position (''/*'' @ [LF] @ ''*/]'') 5 = (2, 3)
   \<and> parse (''["a'' @ [LF] @ ''b" }]'')
     = Inl (ParsingError ''Expected ',' or ']' after array element.'' 2 5)
   \<and> token_position (''["a'' @ [LF] @ ''b" }]'') 7 = (2, 4)
   \<and> parse (''["a'' @ [BS, LF] @ ''b" }]'')
     = Inl (ParsingError ''Expected ',' or ']' after array element.'' 1 9)
   \<and> token_position (''["a'' @ [BS, LF] @ ''b" }]'') 8 = (2, 4)\<close>
  by code_simp

text \<open>
  Claim C3. For every parsed or constructed Object value, iteration (and hence serialisation)
  visits the members in lexicographic order of their keys, whatever the order of the members
  in the input. An object is the list of its entries in iteration order, which
  \<^verbatim>\<open>serialise\<close> follows. Every value \<^verbatim>\<open>parse\<close> returns is \<open>ordered\<close>: the keys of each
  of its objects, at any depth, increase strictly; and an assignment \<^verbatim>\<open>object[key] = value\<close>
  keeps an object ordered. Parsing \<^verbatim>\<open>{"b":1,"a":2}\<close> gives the entry of \<^verbatim>\<open>a\<close> before that
  of \<^verbatim>\<open>b\<close>, and so does the text written for it.
\<close>

theorem object_keys_sorted:
  \<open>(parse src = Inr v \<longrightarrow> ordered v)
   \<and> (ordered (JObject m) \<and> ordered x \<longrightarrow> ordered (JObject (map_assign k x m)))
   \<and> parse ''{"b":1,"a":2}'' = Inr (JObject [(''a'', JNumber 2), (''b'', JNumber 1)])
   \<and> serialise (JObject [(''a'', JNumber 2), (''b'', JNumber 1)]) 0
      = ''{'' @ [LF] @ ''  "a": 2,'' @ [LF] @ ''  "b": 1'' @ [LF] @ ''}''\<close>
proof (intro conjI impI)
  show "ordered v" if "parse src = Inr v" using that by (rule parse_ordered_top)
  show "ordered (JObject (map_assign k x m))" if "ordered (JObject m) \<and> ordered x"
    using that ordered_map_assign by blast
  show \<open>parse ''{"b":1,"a":2}'' = Inr (JObject [(''a'', JNumber 2), (''b'', JNumber 1)])\<close>
    by code_simp
  show \<open>serialise (JObject [(''a'', JNumber 2), (''b'', JNumber 1)]) 0
      = ''{'' @ [LF] @ ''  "a": 2,'' @ [LF] @ ''  "b": 1'' @ [LF] @ ''}''\<close>
    by code_simp
qed

theorem object_keys_sorted_witness:
  \<open>parse ''{"b":{"d":1,"c":2},"a":2}''
      = Inr (JObject [(''a'', JNumber 2), (''b'', JObject [(''c'', JNumber 2), (''d'', JNumber 1)])])
   \<and> ordered (JObject [(''a'', JNumber 2), (''b'', JObject [(''c'', JNumber 2), (''d'', JNumber 1)])])
   \<and> ordered (JObject [(''b'', JNull)]) \<and> ordered (JBool True)
   \<and> ordered (JObject (map_assign ''a'' (JBool True) [(''b'', JNull)]))\<close>
proof -
  have a: \<open>parse ''{"b":{"d":1,"c":2},"a":2}''
      = Inr (JObject [(''a'', JNumber 2), (''b'', JObject [(''c'', JNumber 2), (''d'', JNumber 1)])])\<close>
    by code_simp
  have b: "ordered (JObject [(''b'', JNull)]) \<and> ordered (JBool True)" by simp
  show ?thesis
    using object_keys_sorted [of \<open>''{"b":{"d":1,"c":2},"a":2}''\<close>
        "JObject [(''a'', JNumber 2), (''b'', JObject [(''c'', JNumber 2), (''d'', JNumber 1)])]"
        "[(''b'', JNull)]" "JBool True" "''a''"] a b
    by blast
qed

text \<open>
  Claim C9, as stated: the Lexer treats \<^verbatim>\<open>-\<close> as the start of a number token, and for every
  input made of \<^verbatim>\<open>-\<close> and a digit sequence, \<^verbatim>\<open>parse\<close> returns a Number equal to the
  negated magnitude. The Number is a \<^verbatim>\<open>double\<close>: the magnitude is rounded to the nearest
  one, and \<^verbatim>\<open>-9007199254740993\<close> (\<open>2\<^sup>5\<^sup>3 + 1\<close>) yields \<open>-9007199254740992\<close>.
\<close>

theorem minus_and_digits_rounded:
  "parse ''-9007199254740993'' = Inr (JNumber (- 9007199254740992))"
  by code_simp

text \<open>
  Claim C9, amended. For every input made of \<^verbatim>\<open>-\<close> and a non-empty sequence of digits,
  \<^verbatim>\<open>parse\<close> returns the Number that is the double nearest to the negated magnitude, and
  fails with \<^verbatim>\<open>Number is out of range for a double.\<close> at line 1, column 1 when that
  rounded value is \<open>2\<^sup>1\<^sup>0\<^sup>2\<^sup>4\<close> or more in magnitude. When the magnitude is below \<open>2\<^sup>5\<^sup>3\<close>, the
  Number is the negated magnitude itself; so for \<^verbatim>\<open>-5\<close> it is \<open>-5\<close>.
\<close>

theorem minus_and_digits:
  assumes "ds \<noteq> []" "list_all isdigit ds"
  shows "parse (CHR ''-'' # ds) =
       (let r = round_double (- of_int (digits_val ds))
        in if r \<noteq> 0 \<and> 1024 \<le> ilog 2 \<bar>r\<bar>
           then Inl (ParsingError ''Number is out of range for a double.'' 1 1)
           else Inr (JNumber r))
    \<and> (digits_val ds < 2 ^ 53 \<longrightarrow> parse (CHR ''-'' # ds) = Inr (JNumber (- of_int (digits_val ds))))
    \<and> parse ''-5'' = Inr (JNumber (- 5))"
proof (intro conjI impI)
  show g: "parse (CHR ''-'' # ds) =
       (let r = round_double (- of_int (digits_val ds))
        in if r \<noteq> 0 \<and> 1024 \<le> ilog 2 \<bar>r\<bar>
           then Inl (ParsingError ''Number is out of range for a double.'' 1 1)
           else Inr (JNumber r))"
    by (rule parse_minus_digits [OF assms])
  show "parse (CHR ''-'' # ds) = Inr (JNumber (- of_int (digits_val ds)))"
    if lt: "digits_val ds < 2 ^ 53"
  proof -
    define n where "n = digits_val ds"
    have n: "0 \<le> n" "n < 2 ^ 53" using digits_val_nonneg [OF assms(2)] lt by (simp_all add: n_def)
    have r: "round_double (- of_int n) = - of_int n"
      using round_double_of_int [of "- n"] n by simp
    have "\<not> (n \<noteq> 0 \<and> 1024 \<le> ilog 2 (of_int n))"
      using ilog_small(2) [of n] n by (cases "n = 0") auto
    then have "\<not> (- (of_int n :: rat) \<noteq> 0 \<and> 1024 \<le> ilog 2 \<bar>- (of_int n :: rat)\<bar>)"
      using n(1) by simp
    then show ?thesis using g unfolding n_def [symmetric] Let_def r by simp
  qed
  show "parse ''-5'' = Inr (JNumber (- 5))" by code_simp
qed

theorem minus_and_digits_witness:
  "''007'' \<noteq> [] \<and> list_all isdigit ''007'' \<and> digits_val ''007'' < 2 ^ 53
   \<and> parse ''-007'' = Inr (JNumber (- 7))"
proof -
  have a: "list_all isdigit ''007''" by (simp add: isdigit_nat)
  have b: "digits_val ''007'' = 7" by (simp add: digits_val_def digit_val_def)
  have c: "''007'' \<noteq> []" by simp
  have "digits_val ''007'' < 2 ^ 53
      \<longrightarrow> parse (CHR ''-'' # ''007'') = Inr (JNumber (- of_int (digits_val ''007'')))"
    using minus_and_digits [OF c a] by (rule conjunct2 [THEN conjunct1])
  then show ?thesis using a b by simp
qed

text \<open>
  Claim C1, as stated: for every value whose strings and keys hold no control character, no
  backslash and no double quote, and whose numbers are finite, parsing the text written by
  \<^verbatim>\<open>serialise\<close> at indent 0 yields an equal value. A number is written with six significant
  digits (\<^verbatim>\<open>os << d\<close> on a stream in its default state), so a finite number with more is
  not read back: \<open>1234567\<close> is written \<^verbatim>\<open>1.23457e+06\<close> and read as \<open>1234570\<close>.
\<close>

theorem roundtrip_loses_digits:
  "parse (serialise (JNumber 1234567) 0) = Inr (JNumber 1234570)"
  by code_simp

text \<open>
  Claim C1, amended. For every value \<open>v\<close> whose strings and keys hold no backslash and no double
  quote (control characters are allowed), whose numbers are finite and \<open>exact\<close> (the six
  significant digits written for the number are read back by \<^verbatim>\<open>std::stod\<close> as the number),
  and whose objects have their keys in increasing order, as every \<^verbatim>\<open>std::map\<close> has, parsing
  the text written by \<^verbatim>\<open>serialise\<close> at indent 0 yields \<open>v\<close>. (Every number of the model is
  finite.)
\<close>

theorem roundtrip:
  assumes "plain v"
  shows "parse (serialise v 0) = Inr v"
proof -
  have "delimited []" by (simp add: delimited_def)
  from parse_serialise_then [OF assms this]
  obtain q' where q': "rest (lexer q') = []"
      "parse (serialise v 0) = (case Parser_advance q' of Inl e \<Rightarrow> Inl e | Inr p' \<Rightarrow> Inr v)"
    by auto
  obtain p' where "Parser_advance q' = Inr p'"
    using advances_EndOfFile [of q' "[]"] q'(1) by (auto simp: advances_def)
  then show ?thesis using q'(2) by simp
qed

theorem roundtrip_witness:
  \<open>plain (JObject [(''a b'', JArray [JNumber (- 3 / 2), JString (''x'' @ [LF] @ ''/*y''), JNull,
       JArray [], JObject []]), (''b'', JBool True), (''c'', JNumber 120000)])
   \<and> parse (serialise (JObject [(''a b'', JArray [JNumber (- 3 / 2), JString (''x'' @ [LF] @ ''/*y''),
       JNull, JArray [], JObject []]), (''b'', JBool True), (''c'', JNumber 120000)]) 0)
     = Inr (JObject [(''a b'', JArray [JNumber (- 3 / 2), JString (''x'' @ [LF] @ ''/*y''), JNull,
       JArray [], JObject []]), (''b'', JBool True), (''c'', JNumber 120000)])\<close>
proof -
  have e: "exact (- 3 / 2)" "exact 120000" by code_simp+
  have "plain (JObject [(''a b'', JArray [JNumber (- 3 / 2), JString (''x'' @ [LF] @ ''/*y''), JNull,
       JArray [], JObject []]), (''b'', JBool True), (''c'', JNumber 120000)])"
    using e by simp
  then show ?thesis using roundtrip by blast
qed




end
